theory Spec2Isabelle
  imports Main "HOL-Library.Char_ord" "HOL-Library.List_Lexorder" "HOL-Library.Product_Lexorder"
begin

section \<open>Python and operating-system primitives used by \<^verbatim>\<open>rename_to_sequential.py\<close>\<close>

text \<open>
  Paths and file names are Python \<^verbatim>\<open>str\<close> values, modelled as \<open>string\<close>.
  Path operations follow \<^verbatim>\<open>posixpath\<close> (separator \<^verbatim>\<open>/\<close>, extension
  separator \<^verbatim>\<open>.\<close>).
\<close>

type_synonym path = string

subsection \<open>Decimal text of integers and the format specification \<^verbatim>\<open>0{digit}\<close>\<close>

definition digit_char :: "nat \<Rightarrow> char" where
  "digit_char n = ''0123456789'' ! (n mod 10)"

text \<open>\<^verbatim>\<open>str(n)\<close> for a natural number \<open>n\<close>.\<close>

fun str_nat :: "nat \<Rightarrow> string" where
  "str_nat n = (if n < 10 then [digit_char n] else str_nat (n div 10) @ [digit_char (n mod 10)])"

declare str_nat.simps [simp del]

text \<open>\<^verbatim>\<open>str(i)\<close> for a Python \<^verbatim>\<open>int\<close>.\<close>

definition py_str :: "int \<Rightarrow> string" where
  "py_str i = (if i < 0 then CHR ''-'' # str_nat (nat (- i)) else str_nat (nat i))"

text \<open>
  \<^verbatim>\<open>f'{j:0{digit}}'\<close>: the integer \<open>j\<close> formatted with the zero flag and minimum
  width \<open>digit\<close>. Python pads with zeros between the sign and the digits until the whole
  text is \<open>digit\<close> characters wide, and never cuts digits off.
\<close>

definition py_format_zero :: "int \<Rightarrow> nat \<Rightarrow> string" where
  "py_format_zero j d =
     (if j < 0
      then (let ds = str_nat (nat (- j)) in CHR ''-'' # replicate (d - 1 - length ds) CHR ''0'' @ ds)
      else (let ds = str_nat (nat j) in replicate (d - length ds) CHR ''0'' @ ds))"

subsection \<open>\<^verbatim>\<open>str.rfind\<close>, \<^verbatim>\<open>str.endswith\<close>, \<^verbatim>\<open>list.index\<close>\<close>

text \<open>\<^verbatim>\<open>s.rfind(c)\<close>: the index of the last occurrence of \<open>c\<close>, or \<open>-1\<close>.\<close>

fun rfind :: "char \<Rightarrow> string \<Rightarrow> int" where
  "rfind c [] = - 1"
| "rfind c (x # xs) =
     (let r = rfind c xs in if 0 \<le> r then r + 1 else if x = c then 0 else - 1)"

definition endswith :: "string \<Rightarrow> string \<Rightarrow> bool" where
  "endswith s suf = (length suf \<le> length s \<and> drop (length s - length suf) s = suf)"

text \<open>\<^verbatim>\<open>s.endswith(t)\<close> for a tuple \<open>t\<close> of suffixes.\<close>

definition endswith_any :: "string \<Rightarrow> string list \<Rightarrow> bool" where
  "endswith_any s sufs = list_ex (endswith s) sufs"

text \<open>\<^verbatim>\<open>xs.index(x)\<close>: the first position of \<open>x\<close>; \<open>None\<close> stands for \<^verbatim>\<open>ValueError\<close>.\<close>

fun list_index :: "'a list \<Rightarrow> 'a \<Rightarrow> nat option" where
  "list_index [] x = None"
| "list_index (y # ys) x = (if y = x then Some 0 else map_option Suc (list_index ys x))"

subsection \<open>\<^verbatim>\<open>os.path.splitext\<close> and \<^verbatim>\<open>os.path.join\<close>\<close>

text \<open>
  \<^verbatim>\<open>genericpath._splitext\<close>: the extension starts at the last dot of the last path
  component, unless that component consists of leading dots only up to there.
\<close>

definition os_path_splitext :: "path \<Rightarrow> path \<times> string" where
  "os_path_splitext p =
     (let sepIndex = rfind CHR ''/'' p;
          dotIndex = rfind CHR ''.'' p
      in if sepIndex < dotIndex \<and>
            list_ex (\<lambda>c. c \<noteq> CHR ''.'') (take (nat (dotIndex - (sepIndex + 1))) (drop (nat (sepIndex + 1)) p))
         then (take (nat dotIndex) p, drop (nat dotIndex) p)
         else (p, []))"

definition os_path_join :: "path \<Rightarrow> string \<Rightarrow> path" where
  "os_path_join a b =
     (if take 1 b = ''/'' then b
      else if a = [] \<or> endswith a ''/'' then a @ b
      else a @ ''/'' @ b)"

subsection \<open>The file system and \<^verbatim>\<open>os.rename\<close>\<close>

text \<open>
  A disk maps the path of every existing entry to its content; \<^verbatim>\<open>os.path.exists\<close> is
  membership in its domain. \<^verbatim>\<open>os.rename(src, dst)\<close> raises \<^verbatim>\<open>FileNotFoundError\<close>
  when \<open>src\<close> does not exist and otherwise moves the entry, replacing an entry at \<open>dst\<close>
  (the POSIX behaviour for files).
\<close>

type_synonym 'c fs = "path \<rightharpoonup> 'c"

datatype exn = FileNotFoundError | NoUnusedName

definition os_path_exists :: "'c fs \<Rightarrow> path \<Rightarrow> bool" where
  "os_path_exists d p = (d p \<noteq> None)"

definition os_rename :: "path \<Rightarrow> path \<Rightarrow> 'c fs \<Rightarrow> exn + 'c fs" where
  "os_rename src dst d =
     (case d src of
        None \<Rightarrow> Inl FileNotFoundError
      | Some c \<Rightarrow> Inr ((d(src := None))(dst \<mapsto> c)))"

section \<open>The state of a run\<close>

text \<open>
  Besides the disk, the world records what the run can be observed to do: the
  \<^verbatim>\<open>os.rename\<close> calls carried out (in order), the ticks of the progress bar, and the
  messages given to \<^verbatim>\<open>logger.error\<close>. \<open>draws\<close> is the randomness still to come: the
  candidate names the random name generator will produce, in order.
\<close>

record 'c world =
  disk :: "'c fs"
  draws :: "path list"
  renames :: "(path \<times> path) list"
  bar :: nat
  errors :: "string list"

datatype 'a outcome =
    Done 'a
  | Aborted 'a
  | Rejected 'a
  | Declined 'a
  | Raised exn 'a

text \<open>
  Modelled from the spec: \<^verbatim>\<open>gen_random_filename\<close> (module \<^verbatim>\<open>utils\<close>) is not part of the
  sources. The spec (4.3) says: given a directory and an extension, produce a filename
  not currently present in that directory, checked by an existence probe, looping
  generation until an unused name is found; no registry of names is kept. The candidates
  of the successive loop rounds are the \<open>draws\<close>; a candidate that exists is dropped and
  the next one tried. \<open>None\<close> means the generator found no unused name among its draws
  (it does not return).
\<close>

fun gen_random_filename :: "'c fs \<Rightarrow> path list \<Rightarrow> path \<Rightarrow> string \<Rightarrow> (path \<times> path list) option" where
  "gen_random_filename d [] dir_path extension = None"
| "gen_random_filename d (c # cs) dir_path extension =
     (if os_path_exists d c then gen_random_filename d cs dir_path extension else Some (c, cs))"

text \<open>
  Modelled from the spec: \<^verbatim>\<open>enumerate_with_step\<close> (module \<^verbatim>\<open>utils\<close>) is not part of the
  sources. The spec (4.4, step 1) says: enumerate the list assigning to each position
  \<open>p\<close> the index \<open>initialNumber + p * step\<close>. It is written as the generator it is:
  the running index starts at \<open>start\<close> and grows by \<open>step\<close> after each element.
\<close>

fun enumerate_with_step :: "'a list \<Rightarrow> int \<Rightarrow> int \<Rightarrow> (int \<times> 'a) list" where
  "enumerate_with_step [] start step = []"
| "enumerate_with_step (x # xs) start step = (start, x) # enumerate_with_step xs (start + step) step"

section \<open>\<^verbatim>\<open>ImageRenamer.rename\<close>: one file, one directory\<close>

text \<open>Lines 135--137: the destination computed for \<open>filename\<close> with index \<open>j\<close>.\<close>

definition dst_filename :: "path \<Rightarrow> nat \<Rightarrow> int \<Rightarrow> path \<Rightarrow> path" where
  "dst_filename current_dir digit j filename =
     os_path_join current_dir (py_format_zero j digit @ snd (os_path_splitext filename))"

definition sys_rename :: "path \<Rightarrow> path \<Rightarrow> 'c world \<Rightarrow> exn + 'c world" where
  "sys_rename src dst w =
     (case os_rename src dst (disk w) of
        Inl e \<Rightarrow> Inl e
      | Inr d \<Rightarrow> Inr (w\<lparr>disk := d, renames := renames w @ [(src, dst)]\<rparr>))"

text \<open>
  Lines 135--158, the body of the loop for the element at position \<open>p\<close> with index \<open>j\<close>.
  The state is the in-memory list \<^verbatim>\<open>filenames\<close> together with the world. The element is
  read from the list as it is when the iteration starts.
\<close>

definition rename_one ::
  "path \<Rightarrow> nat \<Rightarrow> int \<Rightarrow> nat \<Rightarrow> path list \<times> 'c world \<Rightarrow> (path list \<times> 'c world) outcome" where
  "rename_one current_dir digit j p st =
     (let filenames = fst st; w = snd st;
          filename = filenames ! p;
          extension = snd (os_path_splitext filename);
          dst = dst_filename current_dir digit j filename
      in if filename = dst then Done (filenames, w\<lparr>bar := bar w + 1\<rparr>)
         else if os_path_exists (disk w) dst then
           (case gen_random_filename (disk w) (draws w) current_dir extension of
              None \<Rightarrow> Raised NoUnusedName (filenames, w)
            | Some (tmp_filename, rest) \<Rightarrow>
                (case list_index filenames dst of
                   None \<Rightarrow>
                     Aborted (filenames,
                       w\<lparr>draws := rest,
                         errors := errors w @ [''Existed filename suddenly dissappeared!'',
                                               ''Unexpected error occurred! Abort...'']\<rparr>)
                 | Some existed_file_index \<Rightarrow>
                     (let filenames' = filenames[existed_file_index := tmp_filename] in
                      case sys_rename dst tmp_filename (w\<lparr>draws := rest\<rparr>) of
                        Inl e \<Rightarrow> Raised e (filenames', w\<lparr>draws := rest\<rparr>)
                      | Inr w1 \<Rightarrow>
                          (case sys_rename filename dst w1 of
                             Inl e \<Rightarrow> Raised e (filenames', w1)
                           | Inr w2 \<Rightarrow> Done (filenames', w2\<lparr>bar := bar w2 + 1\<rparr>)))))
         else
           (case sys_rename filename dst w of
              Inl e \<Rightarrow> Raised e (filenames, w)
            | Inr w1 \<Rightarrow> Done (filenames, w1\<lparr>bar := bar w1 + 1\<rparr>)))"

text \<open>
  Line 134: the loop over \<^verbatim>\<open>enumerate_with_step(filenames, initial_number, step)\<close>. The
  generator walks the positions of the live list, so an element replaced by the body is
  seen with its new value when its turn comes. The body never changes the length of the
  list, so the positions are those of the list at the start. Any outcome other than
  \<open>Done\<close> leaves the loop.
\<close>

fun rename_loop ::
  "path \<Rightarrow> nat \<Rightarrow> (int \<times> nat) list \<Rightarrow> path list \<times> 'c world \<Rightarrow> (path list \<times> 'c world) outcome" where
  "rename_loop current_dir digit [] st = Done st"
| "rename_loop current_dir digit (jp # rest) st =
     (case rename_one current_dir digit (fst jp) (snd jp) st of
        Done st' \<Rightarrow> rename_loop current_dir digit rest st'
      | Aborted st' \<Rightarrow> Aborted st'
      | Rejected st' \<Rightarrow> Rejected st'
      | Declined st' \<Rightarrow> Declined st'
      | Raised e st' \<Rightarrow> Raised e st')"

definition rename_batch ::
  "path \<Rightarrow> nat \<Rightarrow> int \<Rightarrow> int \<Rightarrow> path list \<Rightarrow> 'c world \<Rightarrow> (path list \<times> 'c world) outcome" where
  "rename_batch current_dir digit initial_number step filenames w =
     rename_loop current_dir digit
       (enumerate_with_step [0..<length filenames] initial_number step) (filenames, w)"

text \<open>The destinations the loop computes for a list that is not changed on the way.\<close>

definition targets :: "path \<Rightarrow> nat \<Rightarrow> int \<Rightarrow> int \<Rightarrow> path list \<Rightarrow> path list" where
  "targets current_dir digit initial_number step filenames =
     map (\<lambda>jf. dst_filename current_dir digit (fst jf) (snd jf))
       (enumerate_with_step filenames initial_number step)"

section \<open>Listing a directory: filter and natural sort\<close>

definition is_digit :: "char \<Rightarrow> bool" where
  "is_digit c = (c \<in> set ''0123456789'')"

definition digit_val :: "char \<Rightarrow> nat" where
  "digit_val c = of_char c - 48"

text \<open>\<^verbatim>\<open>int(ds)\<close> for a run of decimal digits.\<close>

definition int_of_digits :: "string \<Rightarrow> nat" where
  "int_of_digits ds = foldl (\<lambda>a c. 10 * a + digit_val c) 0 ds"

text \<open>
  Splitting a text at its maximal digit runs, as \<^verbatim>\<open>re.split(r'(\d+)', text)\<close> does: the
  result \<open>(s0, [(d1, s1), ..., (dk, sk)])\<close> stands for the list
  \<open>[s0, d1, s1, ..., dk, sk]\<close> of alternating non-digit and digit pieces, where \<open>s0\<close>
  and \<open>sk\<close> may be empty.
\<close>

fun split_runs :: "string \<Rightarrow> string \<times> (string \<times> string) list" where
  "split_runs [] = ([], [])"
| "split_runs (c # cs) =
     (case split_runs cs of
        (s0, rest) \<Rightarrow>
          if is_digit c then
            (case rest of
               (d1, s1) # rest' \<Rightarrow> if s0 = [] then ([], (c # d1, s1) # rest') else ([], ([c], s0) # rest)
             | [] \<Rightarrow> ([], ([c], s0) # rest))
          else (c # s0, rest))"

text \<open>
  Modelled from the spec: \<^verbatim>\<open>natural_keys\<close> (module \<^verbatim>\<open>utils\<close>) is not part of the
  sources. The spec (4.1) says: the key splits the string into runs of digits and runs of
  non-digits; digit runs compare as integers and non-digit runs as text, left to right.
  A key is the list of the pieces; a text piece \<open>s\<close> is written \<open>(0, s)\<close> and a digit
  run of value \<open>n\<close> is written \<open>(n, [])\<close>, so that the lexicographic order of the keys
  compares pieces of the same kind, which are the only ones that meet at one position.
\<close>

definition natural_keys :: "string \<Rightarrow> (nat \<times> string) list" where
  "natural_keys text =
     (case split_runs text of
        (s0, rest) \<Rightarrow> (0, s0) # concat (map (\<lambda>ds. [(int_of_digits (fst ds), []), (0, snd ds)]) rest))"

text \<open>
  Lines 121--125: the batch of a directory. \<^verbatim>\<open>sorted\<close> is stable, as \<open>sort_key\<close> is.
\<close>

definition batch_of :: "string list \<Rightarrow> path \<Rightarrow> string list \<Rightarrow> path list" where
  "batch_of exts current_dir files =
     map (os_path_join current_dir)
       (filter (\<lambda>filename. endswith_any filename exts) (sort_key natural_keys files))"

section \<open>Configuration and validation\<close>

record config =
  target_dir :: path
  digit :: int
  extensions :: "string list"
  initial_number :: int
  step :: int
  yes :: bool

datatype UserResponse = YES | NO

text \<open>
  What the run reads from its environment without changing it: whether a path is a
  directory, the directories \<^verbatim>\<open>os.walk\<close> visits (in order) below a root, the names of
  the files of a directory on a given disk (in the order the system lists them), and the
  answer of the user to the confirmation prompt.
\<close>

record 'c os_env =
  isdir :: "path \<Rightarrow> bool"
  walk :: "path \<Rightarrow> path list"
  listfiles :: "'c fs \<Rightarrow> path \<Rightarrow> string list"
  ask :: UserResponse

text \<open>
  Modelled from the spec: the predicates of module \<^verbatim>\<open>validator\<close> are not part of the
  sources. The spec (4.5, 6) says: the digit width is in \<open>[3, 9]\<close>, every extension
  starts with a dot, the initial number is zero or positive, the step is positive.
  \<^verbatim>\<open>is_dir\<close> is \<open>isdir\<close> of the environment; \<^verbatim>\<open>is_bool\<close> holds of every \<open>bool\<close>.
  The call at line 59 passes a fourth argument \<^verbatim>\<open>False\<close> to \<^verbatim>\<open>is_in_range\<close>, of which
  the spec says nothing; the range is the closed one the spec and the message give.
\<close>

definition is_in_range :: "int \<Rightarrow> int \<Rightarrow> int \<Rightarrow> bool" where
  "is_in_range n lo hi = (lo \<le> n \<and> n \<le> hi)"

definition is_positive_number :: "int \<Rightarrow> bool" where
  "is_positive_number n = (0 < n)"

definition is_extension :: "string \<Rightarrow> bool" where
  "is_extension e = (take 1 e = ''.'')"

definition is_bool :: "bool \<Rightarrow> bool" where
  "is_bool b = True"

text \<open>One check of \<^verbatim>\<open>_input_is_valid\<close>: on failure log the message and clear the flag.\<close>

definition check :: "bool \<Rightarrow> string \<Rightarrow> bool \<times> string list \<Rightarrow> bool \<times> string list" where
  "check ok msg st = (if ok then st else (False, snd st @ [msg]))"

definition msg_target_dir :: string where
  "msg_target_dir = ''You must type a valid directory for TARGET DIRECTORY. (-t, --target_dir)''"

definition msg_digit :: string where
  "msg_digit = ''You must type a number for DIGIT. [Min: 3, Max: 9] (-d, --digit)''"

definition msg_extension :: string where
  "msg_extension = ''You must type at least one EXTENSION. (-e, --extensions)''"

definition msg_initial_number :: string where
  "msg_initial_number = ''You must type a ZERO or positive number for INITIAL NUMBER. (-i, --initial_number)''"

definition msg_step :: string where
  "msg_step = ''You must type a positive number for STEP. (-s, --step)''"

definition msg_yes :: string where
  "msg_yes = ''You must just type -y flag. No need to type a parameter. (-y, --yes)''"

text \<open>
  Lines 43--90. The result is the flag \<^verbatim>\<open>is_valid\<close> and the messages logged, in order.
\<close>

definition input_is_valid :: "config \<Rightarrow> 'c os_env \<Rightarrow> bool \<times> string list" where
  "input_is_valid c env =
     (let st = (True, []);
          st = check (isdir env (target_dir c)) msg_target_dir st;
          st = check (is_in_range (digit c) 3 9) msg_digit st;
          st = foldl (\<lambda>st extension. check (is_extension extension) msg_extension st) st (extensions c);
          st = check (initial_number c = 0 \<or> is_positive_number (initial_number c)) msg_initial_number st;
          st = check (is_positive_number (step c)) msg_step st;
          st = check (is_bool (yes c)) msg_yes st
      in st)"

section \<open>\<^verbatim>\<open>ImageRenamer.rename\<close>: the whole run\<close>

text \<open>
  Lines 115--163: the loop over the directories. A batch that aborts or raises ends the
  whole run (\<^verbatim>\<open>return\<close> at line 152); an empty batch is skipped.
\<close>

fun rename_dirs :: "config \<Rightarrow> 'c os_env \<Rightarrow> path list \<Rightarrow> 'c world \<Rightarrow> 'c world outcome" where
  "rename_dirs c env [] w = Done w"
| "rename_dirs c env (current_dir # rest) w =
     (let filenames = batch_of (extensions c) current_dir (listfiles env (disk w) current_dir)
      in if filenames = [] then rename_dirs c env rest w
         else
           (case rename_batch current_dir (nat (digit c)) (initial_number c) (step c) filenames w of
              Done st \<Rightarrow> rename_dirs c env rest (snd st)
            | Aborted st \<Rightarrow> Aborted (snd st)
            | Rejected st \<Rightarrow> Rejected (snd st)
            | Declined st \<Rightarrow> Declined (snd st)
            | Raised e st \<Rightarrow> Raised e (snd st)))"

text \<open>Lines 98--165. Messages of level \<^verbatim>\<open>info\<close> are not modelled.\<close>

definition rename :: "config \<Rightarrow> 'c os_env \<Rightarrow> 'c world \<Rightarrow> 'c world outcome" where
  "rename c env w =
     (case input_is_valid c env of
        (is_valid, msgs) \<Rightarrow>
          if \<not> is_valid then Rejected (w\<lparr>errors := errors w @ msgs\<rparr>)
          else if \<not> yes c \<and> ask env = NO then Declined w
          else rename_dirs c env (walk env (target_dir c)) w)"

section \<open>Example inputs\<close>

text \<open>Small worlds, a configuration and an environment, used to run the definitions.\<close>

definition mk_world :: "(path \<times> 'c) list \<Rightarrow> path list \<Rightarrow> 'c world" where
  "mk_world entries ds = \<lparr>disk = map_of entries, draws = ds, renames = [], bar = 0, errors = []\<rparr>"

definition example_config :: config where
  "example_config =
     \<lparr>target_dir = ''d'', digit = 3, extensions = [''.jpg''], initial_number = 1, step = 1, yes = True\<rparr>"

definition example_env :: "string list \<Rightarrow> nat os_env" where
  "example_env names =
     \<lparr>isdir = (\<lambda>p. p = ''d''), walk = (\<lambda>p. [p]),
      listfiles = (\<lambda>d p. filter (\<lambda>f. os_path_exists d (os_path_join p f)) names), ask = YES\<rparr>"

section \<open>The invariant of the loop over one directory\<close>

text \<open>
  What a batch is started with in the theorems about whole batches: the list has no
  repeated path, every listed file exists, the step is positive, and no name the
  generator may draw is the target of a position of the batch.
\<close>

definition batch_ok :: "path \<Rightarrow> nat \<Rightarrow> int \<Rightarrow> int \<Rightarrow> path list \<Rightarrow> 'c world \<Rightarrow> bool" where
  "batch_ok cd d i s fns0 w0 \<longleftrightarrow>
     distinct fns0 \<and>
     (\<forall>f\<in>set fns0. os_path_exists (disk w0) f) \<and>
     0 < s \<and>
     (\<forall>t\<in>set (draws w0). \<forall>p<length fns0. \<forall>f\<in>set (fns0 @ draws w0).
        t \<noteq> dst_filename cd d (i + int p * s) f)"

text \<open>
  The state \<open>(fns, w)\<close> reached from \<open>(fns0, w0)\<close> when the positions below \<open>p\<close> are
  done: the entries of the positions still to come are pairwise different, every entry
  is the original one or a drawn name, the files of the positions done are at their
  targets, the files of the other positions are at the paths the list records for them,
  and every other path is as it was at the start, or free if it was the path of a
  listed file.
\<close>

definition batch_inv ::
  "path \<Rightarrow> nat \<Rightarrow> int \<Rightarrow> int \<Rightarrow> path list \<Rightarrow> 'c world \<Rightarrow> nat \<Rightarrow> path list \<Rightarrow> 'c world \<Rightarrow> bool" where
  "batch_inv cd d i s fns0 w0 p fns w \<longleftrightarrow>
     length fns = length fns0 \<and>
     ((\<forall>k k'. p \<le> k \<and> k < length fns0 \<and> p \<le> k' \<and> k' < length fns0 \<and> k \<noteq> k' \<longrightarrow>
         fns ! k \<noteq> fns ! k') \<and>
      (\<forall>k<length fns0. fns ! k = fns0 ! k \<or> fns ! k \<in> set (draws w0))) \<and>
     set fns \<subseteq> set fns0 \<union> set (draws w0) \<and>
     set (draws w) \<subseteq> set (draws w0) \<and>
     (\<forall>t\<in>set fns. t \<notin> set fns0 \<longrightarrow> disk w0 t = None) \<and>
     (\<forall>q<p. disk w (dst_filename cd d (i + int q * s) (fns ! q)) = disk w0 (fns0 ! q)) \<and>
     (\<forall>k. p \<le> k \<and> k < length fns0 \<longrightarrow> disk w (fns ! k) = disk w0 (fns0 ! k)) \<and>
     (\<forall>q k. q < p \<and> p \<le> k \<and> k < length fns0 \<longrightarrow>
        dst_filename cd d (i + int q * s) (fns ! q) \<noteq> fns ! k) \<and>
     (\<forall>x. (\<forall>q<p. x \<noteq> dst_filename cd d (i + int q * s) (fns ! q)) \<and>
          (\<forall>k. p \<le> k \<and> k < length fns0 \<longrightarrow> x \<noteq> fns ! k) \<longrightarrow>
          disk w x = (if x \<in> set fns0 then None else disk w0 x))"

section \<open>Observing outcomes; example batches\<close>

fun is_done :: "'a outcome \<Rightarrow> bool" where
  "is_done (Done st) = True"
| "is_done (Aborted st) = False"
| "is_done (Rejected st) = False"
| "is_done (Declined st) = False"
| "is_done (Raised e st) = False"

text \<open>The state an outcome carries, whichever it is.\<close>

fun outcome_state :: "'a outcome \<Rightarrow> 'a" where
  "outcome_state (Done st) = st"
| "outcome_state (Aborted st) = st"
| "outcome_state (Rejected st) = st"
| "outcome_state (Declined st) = st"
| "outcome_state (Raised e st) = st"

text \<open>
  Two files of which the first is to take the name of the second, and one candidate
  name for the generator.
\<close>

definition shift_batch :: "path list" where
  "shift_batch = [''d/001.jpg'', ''d/002.jpg'']"

definition shift_world :: "nat world" where
  "shift_world = mk_world [(''d/001.jpg'', 11), (''d/002.jpg'', 22)] [''d/tmp.jpg'']"

text \<open>
  Five files in natural order, renumbered from 2 with digit width 3. The generator
  draws \<^verbatim>\<open>d/005.jpg\<close> twice, each time when no such file exists, and then
  \<^verbatim>\<open>d/T.jpg\<close>.
\<close>

definition stale_batch :: "path list" where
  "stale_batch = [''d/001.jpg'', ''d/002.jpg'', ''d/2a.jpg'', ''d/3.jpg'', ''d/004.jpg'']"

definition stale_world :: "nat world" where
  "stale_world =
     mk_world
       [(''d/001.jpg'', 11), (''d/002.jpg'', 22), (''d/2a.jpg'', 33), (''d/3.jpg'', 44), (''d/004.jpg'', 55)]
       [''d/005.jpg'', ''d/005.jpg'', ''d/T.jpg'']"

section \<open>Notions used to state the second run\<close>

text \<open>The file names (without the directory) of the targets of a list.\<close>

definition target_names :: "nat \<Rightarrow> int \<Rightarrow> int \<Rightarrow> path list \<Rightarrow> string list" where
  "target_names d i s fns =
     map (\<lambda>jf. py_format_zero (fst jf) d @ snd (os_path_splitext (snd jf))) (enumerate_with_step fns i s)"







section \<open>Basic facts about the primitives and the loop\<close>


lemma length_str_nat_pos: "0 < length (str_nat n)"
  by (induction n rule: str_nat.induct) (subst str_nat.simps, simp)

lemma gen_random_filename_Some:
  "gen_random_filename d cs dir_path ext = Some (tmp, rest) \<Longrightarrow>
     \<not> os_path_exists d tmp \<and> (\<exists>skipped. cs = skipped @ tmp # rest \<and> (\<forall>c\<in>set skipped. os_path_exists d c))"
proof (induction cs)
  case Nil
  then show ?case by simp
next
  case (Cons c cs)
  show ?case
  proof (cases "os_path_exists d c")
    case True
    with Cons obtain skipped where "cs = skipped @ tmp # rest" "\<forall>c\<in>set skipped. os_path_exists d c"
      "\<not> os_path_exists d tmp" by auto
    with True have "c # cs = (c # skipped) @ tmp # rest \<and> (\<forall>x\<in>set (c # skipped). os_path_exists d x)" by simp
    with \<open>\<not> os_path_exists d tmp\<close> show ?thesis by blast
  next
    case False
    with Cons.prems have "tmp = c" "rest = cs" by simp_all
    with False show ?thesis by (intro conjI exI[of _ "[]"]) simp_all
  qed
qed

lemma list_index_None: "list_index xs x = None \<longleftrightarrow> x \<notin> set xs"
  by (induction xs) auto


lemma list_index_Some:
  "list_index xs x = Some m \<Longrightarrow> m < length xs \<and> xs ! m = x \<and> x \<notin> set (take m xs)"
proof (induction xs arbitrary: m)
  case Nil
  then show ?case by simp
next
  case (Cons y ys)
  show ?case
  proof (cases "y = x")
    case True
    with Cons.prems show ?thesis by simp
  next
    case False
    with Cons.prems obtain k where k: "list_index ys x = Some k" "m = Suc k" by auto
    from Cons.IH[OF k(1)] False k(2) show ?thesis by simp
  qed
qed

lemma enumerate_with_step_length [simp]: "length (enumerate_with_step xs a s) = length xs"
  by (induction xs arbitrary: a) simp_all

lemma enumerate_with_step_nth:
  "p < length xs \<Longrightarrow> enumerate_with_step xs a s ! p = (a + int p * s, xs ! p)"
proof (induction xs arbitrary: a p)
  case Nil
  then show ?case by simp
next
  case (Cons x xs)
  show ?case
  proof (cases p)
    case 0
    then show ?thesis by simp
  next
    case (Suc k)
    with Cons.prems have "k < length xs" by simp
    from Cons.IH[OF this, of "a + s"] Suc show ?thesis by (simp add: algebra_simps)
  qed
qed

lemma enumerate_with_step_append:
  "enumerate_with_step (xs @ ys) a s =
     enumerate_with_step xs a s @ enumerate_with_step ys (a + int (length xs) * s) s"
  by (induction xs arbitrary: a) (simp_all add: algebra_simps)

lemma rename_loop_append:
  "rename_loop cd d (xs @ ys) st =
     (case rename_loop cd d xs st of
        Done st' \<Rightarrow> rename_loop cd d ys st'
      | Aborted st' \<Rightarrow> Aborted st'
      | Rejected st' \<Rightarrow> Rejected st'
      | Declined st' \<Rightarrow> Declined st'
      | Raised e st' \<Rightarrow> Raised e st')"
  by (induction xs arbitrary: st) (simp_all split: outcome.splits)

lemma rename_one_noop:
  "fns ! p = dst_filename cd d j (fns ! p) \<Longrightarrow>
     rename_one cd d j p (fns, w) = Done (fns, w\<lparr>bar := bar w + 1\<rparr>)"
  by (simp add: rename_one_def Let_def)

lemma rename_one_Aborted:
  assumes "rename_one cd d j p (fns, w) = Aborted (fns', w')"
  shows "fns' = fns \<and> disk w' = disk w \<and> renames w' = renames w \<and> bar w' = bar w \<and>
         os_path_exists (disk w) (dst_filename cd d j (fns ! p)) \<and>
         dst_filename cd d j (fns ! p) \<notin> set fns \<and>
         errors w' = errors w @ [''Existed filename suddenly dissappeared!'', ''Unexpected error occurred! Abort...'']"
  using assms
  by (auto simp add: rename_one_def Let_def sys_rename_def list_index_None
      split: if_splits option.splits sum.splits prod.splits)


lemma rename_one_abort:
  assumes ne: "fns ! p \<noteq> dst_filename cd d j (fns ! p)"
    and ex: "os_path_exists (disk w) (dst_filename cd d j (fns ! p))"
    and nin: "dst_filename cd d j (fns ! p) \<notin> set fns"
    and gen: "gen_random_filename (disk w) (draws w) cd (snd (os_path_splitext (fns ! p))) = Some (tmp, ds)"
  shows "rename_one cd d j p (fns, w) =
           Aborted (fns, w\<lparr>draws := ds,
             errors := errors w @ [''Existed filename suddenly dissappeared!'',
                                   ''Unexpected error occurred! Abort...'']\<rparr>)"
  using assms by (simp add: rename_one_def Let_def list_index_None[THEN iffD2])

lemma rename_batch_split:
  assumes p: "p < length fns0"
  shows "rename_batch cd d i s fns0 w0 =
     (case rename_loop cd d (enumerate_with_step [0..<p] i s) (fns0, w0) of
        Done st \<Rightarrow>
          (case rename_one cd d (i + int p * s) p st of
             Done st' \<Rightarrow> rename_loop cd d (enumerate_with_step [Suc p..<length fns0] (i + int (Suc p) * s) s) st'
           | Aborted st' \<Rightarrow> Aborted st'
           | Rejected st' \<Rightarrow> Rejected st'
           | Declined st' \<Rightarrow> Declined st'
           | Raised e st' \<Rightarrow> Raised e st')
      | Aborted st \<Rightarrow> Aborted st
      | Rejected st \<Rightarrow> Rejected st
      | Declined st \<Rightarrow> Declined st
      | Raised e st \<Rightarrow> Raised e st)"
proof -
  from p have "[0..<length fns0] = [0..<p] @ p # [Suc p..<length fns0]"
    by (metis le_add2 le_add_same_cancel2 less_imp_add_positive upt_add_eq_append upt_conv_Cons)
  then show ?thesis
    by (simp add: rename_batch_def enumerate_with_step_append rename_loop_append algebra_simps
        split: outcome.splits)
qed


lemma check_fst: "fst (check ok msg st) = (ok \<and> fst st)"
  by (simp add: check_def)

lemma check_snd_mono: "set (snd st) \<subseteq> set (snd (check ok msg st))"
  by (auto simp add: check_def)

lemma check_snd_fail: "\<not> ok \<Longrightarrow> msg \<in> set (snd (check ok msg st))"
  by (simp add: check_def)

lemma check_ext_fold_fst:
  "fst (foldl (\<lambda>st e. check (is_extension e) msg_extension st) st es) = (fst st \<and> list_all is_extension es)"
  by (induction es arbitrary: st) (auto simp add: check_fst)

lemma check_ext_fold_mono:
  "set (snd st) \<subseteq> set (snd (foldl (\<lambda>st e. check (is_extension e) msg_extension st) st es))"
proof (induction es arbitrary: st)
  case Nil
  then show ?case by simp
next
  case (Cons e es)
  have "set (snd st) \<subseteq> set (snd (check (is_extension e) msg_extension st))"
    by (rule check_snd_mono)
  also have "\<dots> \<subseteq> set (snd (foldl (\<lambda>st e. check (is_extension e) msg_extension st) (check (is_extension e) msg_extension st) es))"
    by (rule Cons.IH)
  finally show ?case by simp
qed

lemma check_ext_fold_fail:
  "\<not> list_all is_extension es \<Longrightarrow>
     msg_extension \<in> set (snd (foldl (\<lambda>st e. check (is_extension e) msg_extension st) st es))"
proof (induction es arbitrary: st)
  case Nil
  then show ?case by simp
next
  case (Cons e es)
  show ?case
  proof (cases "is_extension e")
    case True
    with Cons.prems have "\<not> list_all is_extension es" by simp
    from Cons.IH[OF this] show ?thesis by simp
  next
    case False
    then have "msg_extension \<in> set (snd (check (is_extension e) msg_extension st))"
      by (rule check_snd_fail)
    with check_ext_fold_mono[of "check (is_extension e) msg_extension st" es] show ?thesis
      by auto
  qed
qed

lemma input_is_valid_fst:
  "fst (input_is_valid c env) =
     (isdir env (target_dir c) \<and> 3 \<le> digit c \<and> digit c \<le> 9 \<and> list_all is_extension (extensions c) \<and>
      0 \<le> initial_number c \<and> 0 < step c)"
  by (auto simp add: input_is_valid_def Let_def check_fst check_ext_fold_fst is_in_range_def
      is_positive_number_def is_bool_def)

lemma input_is_valid_msgs:
  "(\<not> isdir env (target_dir c) \<longrightarrow> msg_target_dir \<in> set (snd (input_is_valid c env))) \<and>
   (digit c < 3 \<or> 9 < digit c \<longrightarrow> msg_digit \<in> set (snd (input_is_valid c env))) \<and>
   (\<not> list_all is_extension (extensions c) \<longrightarrow> msg_extension \<in> set (snd (input_is_valid c env))) \<and>
   (initial_number c < 0 \<longrightarrow> msg_initial_number \<in> set (snd (input_is_valid c env))) \<and>
   (step c \<le> 0 \<longrightarrow> msg_step \<in> set (snd (input_is_valid c env)))"
proof -
  let ?s0 = "(True, []) :: bool \<times> string list"
  let ?s1 = "check (isdir env (target_dir c)) msg_target_dir ?s0"
  let ?s2 = "check (is_in_range (digit c) 3 9) msg_digit ?s1"
  let ?s3 = "foldl (\<lambda>st e. check (is_extension e) msg_extension st) ?s2 (extensions c)"
  let ?s4 = "check (initial_number c = 0 \<or> is_positive_number (initial_number c)) msg_initial_number ?s3"
  let ?s5 = "check (is_positive_number (step c)) msg_step ?s4"
  let ?s6 = "check (is_bool (yes c)) msg_yes ?s5"
  have r: "input_is_valid c env = ?s6" by (simp add: input_is_valid_def Let_def)
  have m12: "set (snd ?s1) \<subseteq> set (snd ?s2)" by (rule check_snd_mono)
  have m23: "set (snd ?s2) \<subseteq> set (snd ?s3)" by (rule check_ext_fold_mono)
  have m34: "set (snd ?s3) \<subseteq> set (snd ?s4)" by (rule check_snd_mono)
  have m45: "set (snd ?s4) \<subseteq> set (snd ?s5)" by (rule check_snd_mono)
  have m56: "set (snd ?s5) \<subseteq> set (snd ?s6)" by (rule check_snd_mono)
  have a: "\<not> isdir env (target_dir c) \<longrightarrow> msg_target_dir \<in> set (snd ?s1)"
    by (simp add: check_def)
  have b: "digit c < 3 \<or> 9 < digit c \<longrightarrow> msg_digit \<in> set (snd ?s2)"
    by (auto simp add: check_def is_in_range_def)
  have cc: "\<not> list_all is_extension (extensions c) \<longrightarrow> msg_extension \<in> set (snd ?s3)"
    using check_ext_fold_fail by blast
  have d: "initial_number c < 0 \<longrightarrow> msg_initial_number \<in> set (snd ?s4)"
    by (auto simp add: check_def is_positive_number_def)
  have e: "step c \<le> 0 \<longrightarrow> msg_step \<in> set (snd ?s5)"
    by (auto simp add: check_def is_positive_number_def)
  from a b cc d e m12 m23 m34 m45 m56 show ?thesis unfolding r by blast
qed


lemma digit_val_digit_char: "k < 10 \<Longrightarrow> digit_val (digit_char k) = k"
proof -
  assume "k < 10"
  then have "k \<in> {0, 1, 2, 3, 4, 5, 6, 7, 8, 9}" by auto
  then show ?thesis
    by (auto simp add: digit_val_def digit_char_def)
qed

lemma int_of_digits_snoc: "int_of_digits (ds @ [c]) = 10 * int_of_digits ds + digit_val c"
  by (simp add: int_of_digits_def)

lemma int_of_digits_str_nat: "int_of_digits (str_nat n) = n"
proof (induction n rule: str_nat.induct)
  case (1 n)
  show ?case
  proof (cases "n < 10")
    case True
    then show ?thesis
      by (subst str_nat.simps) (simp add: int_of_digits_def digit_val_digit_char)
  next
    case False
    with 1 have "int_of_digits (str_nat (n div 10)) = n div 10" by simp
    with False show ?thesis
      by (subst str_nat.simps) (simp add: int_of_digits_snoc digit_val_digit_char)
  qed
qed


lemma rfind_range: "- 1 \<le> rfind c s \<and> rfind c s < int (length s)"
  by (induction s) (auto simp add: Let_def)

lemma rfind_nth: "0 \<le> rfind c s \<Longrightarrow> s ! nat (rfind c s) = c"
proof (induction s)
  case Nil
  then show ?case by simp
next
  case (Cons x xs)
  show ?case
  proof (cases "0 \<le> rfind c xs")
    case True
    with Cons.IH have "xs ! nat (rfind c xs) = c" by simp
    with True show ?thesis by (simp add: Let_def nat_add_distrib)
  next
    case False
    with Cons.prems show ?thesis by (simp add: Let_def split: if_splits)
  qed
qed

lemma rfind_last: "rfind c s < int k \<Longrightarrow> k < length s \<Longrightarrow> s ! k \<noteq> c"
proof (induction s arbitrary: k)
  case Nil
  then show ?case by simp
next
  case (Cons x xs)
  show ?case
  proof (cases k)
    case 0
    with Cons.prems show ?thesis by (auto simp add: Let_def split: if_splits)
  next
    case (Suc n)
    with Cons.prems have "rfind c xs < int n" "n < length xs"
      by (auto simp add: Let_def split: if_splits)
    with Cons.IH[of n] Suc show ?thesis by simp
  qed
qed

lemma rfind_neg: "rfind c s < 0 \<Longrightarrow> c \<notin> set s"
  using rfind_last[of c s] by (auto simp add: in_set_conv_nth) 

lemma splitext_ext_shape:
  "snd (os_path_splitext p) = [] \<or> hd (snd (os_path_splitext p)) = CHR ''.''"
proof (cases "snd (os_path_splitext p) = []")
  case True
  then show ?thesis by simp
next
  case False
  then have d: "rfind CHR ''/'' p < rfind CHR ''.'' p"
    and e: "snd (os_path_splitext p) = drop (nat (rfind CHR ''.'' p)) p"
    by (auto simp add: os_path_splitext_def Let_def split: if_splits)
  from d rfind_range[of "CHR ''/''" p] have nn: "0 \<le> rfind CHR ''.'' p" by simp
  from rfind_range[of "CHR ''.''" p] nn have lt: "nat (rfind CHR ''.'' p) < length p" by simp
  from rfind_nth[OF nn] lt e show ?thesis by (simp add: hd_drop_conv_nth)
qed


lemma digit_char_is_digit: "is_digit (digit_char k)"
proof -
  define n where "n = k mod 10"
  have "n < 10" by (simp add: n_def)
  then have "n \<in> {0, 1, 2, 3, 4, 5, 6, 7, 8, 9}" by auto
  then have "is_digit (''0123456789'' ! n)"
    by (auto simp add: is_digit_def)
  then show ?thesis by (simp add: digit_char_def n_def)
qed

lemma str_nat_digits: "list_all is_digit (str_nat n)"
proof (induction n rule: str_nat.induct)
  case (1 n)
  show ?case
  proof (cases "n < 10")
    case True
    then show ?thesis by (subst str_nat.simps) (simp add: digit_char_is_digit)
  next
    case False
    with 1 show ?thesis by (subst str_nat.simps) (simp add: digit_char_is_digit)
  qed
qed

lemma is_digit_zero: "is_digit CHR ''0''"
  by (simp add: is_digit_def)

lemma not_digit_chars: "\<not> is_digit CHR ''-''" "\<not> is_digit CHR ''.''" "\<not> is_digit CHR ''/''"
  by (simp_all add: is_digit_def)

lemma int_of_digits_zeros: "int_of_digits (replicate k CHR ''0'' @ ds) = int_of_digits ds"
proof -
  have "foldl (\<lambda>a c. 10 * a + digit_val c) 0 (replicate k CHR ''0'') = 0"
    by (induction k) (simp_all add: digit_val_def)
  then show ?thesis by (simp add: int_of_digits_def)
qed

text \<open>The padded text: an optional sign followed by digits only.\<close>

lemma format_zero_shape:
  "py_format_zero j d = (if j < 0 then ''-'' else []) @ replicate (d - length (py_str j)) CHR ''0'' @ str_nat (nat \<bar>j\<bar>)"
  by (simp add: py_format_zero_def py_str_def Let_def)

lemma format_zero_chars:
  "c \<in> set (py_format_zero j d) \<Longrightarrow> is_digit c \<or> c = CHR ''-''"
  using str_nat_digits[of "nat \<bar>j\<bar>"]
  by (auto simp add: format_zero_shape list_all_iff is_digit_zero split: if_splits)

lemma format_zero_nonempty: "py_format_zero j d \<noteq> []"
  using length_str_nat_pos[of "nat \<bar>j\<bar>"] by (simp add: format_zero_shape)

lemma format_zero_inj:
  assumes "py_format_zero j d = py_format_zero k d"
  shows "j = k"
proof -
  have pos: "\<And>x. 0 \<le> x \<Longrightarrow> list_all is_digit (py_format_zero x d)"
    using str_nat_digits by (auto simp add: format_zero_shape list_all_iff is_digit_zero)
  have neg: "\<And>x. x < 0 \<Longrightarrow> hd (py_format_zero x d) = CHR ''-''"
    by (simp add: format_zero_shape)
  have val: "\<And>x. 0 \<le> x \<Longrightarrow> int (int_of_digits (py_format_zero x d)) = x"
    by (simp add: format_zero_shape int_of_digits_zeros int_of_digits_str_nat)
  have valn: "\<And>x. x < 0 \<Longrightarrow> int (int_of_digits (tl (py_format_zero x d))) = - x"
    by (simp add: format_zero_shape int_of_digits_zeros int_of_digits_str_nat)
  have mixed: "\<And>x y. x < 0 \<Longrightarrow> 0 \<le> y \<Longrightarrow> py_format_zero x d \<noteq> py_format_zero y d"
  proof
    fix x y :: int
    assume x: "x < 0" and y: "0 \<le> y" and eq: "py_format_zero x d = py_format_zero y d"
    from pos[OF y] format_zero_nonempty[of y d] have "is_digit (hd (py_format_zero y d))"
      by (cases "py_format_zero y d") simp_all
    with neg[OF x] eq show False by (simp add: not_digit_chars)
  qed
  have e1: "int (int_of_digits (py_format_zero j d)) = int (int_of_digits (py_format_zero k d))"
    by (simp only: assms)
  have e2: "int (int_of_digits (tl (py_format_zero j d))) = int (int_of_digits (tl (py_format_zero k d)))"
    by (simp only: assms)
  show ?thesis
  proof (cases "j < 0")
    case True
    show ?thesis
    proof (cases "k < 0")
      case True
      from valn[OF \<open>j < 0\<close>] valn[OF True] e2 show ?thesis by linarith
    next
      case False
      then have "0 \<le> k" by simp
      from mixed[OF \<open>j < 0\<close> this] assms show ?thesis by blast
    qed
  next
    case False
    then have j: "0 \<le> j" by simp
    show ?thesis
    proof (cases "k < 0")
      case True
      from mixed[OF True j] assms show ?thesis by metis
    next
      case k: False
      then have "0 \<le> k" by simp
      from val[OF j] val[OF this] e1 show ?thesis by linarith
    qed
  qed
qed

text \<open>The padded text is the part of the basename before the first dot.\<close>

lemma takeWhile_format_ext:
  assumes "e = [] \<or> hd e = CHR ''.''"
  shows "takeWhile (\<lambda>c. c \<noteq> CHR ''.'') (py_format_zero j d @ e) = py_format_zero j d"
proof -
  have nd: "\<forall>c\<in>set (py_format_zero j d). c \<noteq> CHR ''.''"
    using format_zero_chars[of _ j d] not_digit_chars by auto
  show ?thesis
  proof (cases e)
    case Nil
    with nd show ?thesis by simp
  next
    case (Cons x xs)
    with assms have "x = CHR ''.''" by simp
    with nd Cons show ?thesis by (simp add: takeWhile_append2)
  qed
qed

lemma os_path_join_inj:
  assumes "os_path_join a b = os_path_join a b'" "take 1 b \<noteq> ''/''" "take 1 b' \<noteq> ''/''"
  shows "b = b'"
  using assms by (auto simp add: os_path_join_def split: if_splits)

lemma basename_no_sep_start: "take 1 (py_format_zero j d @ e) \<noteq> ''/''"
proof -
  from format_zero_nonempty[of j d] obtain x xs where c: "py_format_zero j d = x # xs"
    by (cases "py_format_zero j d") auto
  then have "x \<in> set (py_format_zero j d)" by simp
  from format_zero_chars[OF this] not_digit_chars have "x \<noteq> CHR ''/''" by auto
  with c show ?thesis by simp
qed

lemma dst_filename_inj:
  assumes "dst_filename cd d j f = dst_filename cd d k g"
  shows "j = k"
proof -
  let ?e = "snd (os_path_splitext f)" and ?e' = "snd (os_path_splitext g)"
  from assms have "py_format_zero j d @ ?e = py_format_zero k d @ ?e'"
    unfolding dst_filename_def by (rule os_path_join_inj) (rule basename_no_sep_start)+
  then have "takeWhile (\<lambda>c. c \<noteq> CHR ''.'') (py_format_zero j d @ ?e) =
             takeWhile (\<lambda>c. c \<noteq> CHR ''.'') (py_format_zero k d @ ?e')" by simp
  then have "py_format_zero j d = py_format_zero k d"
    by (simp add: takeWhile_format_ext splitext_ext_shape)
  then show ?thesis by (rule format_zero_inj)
qed

subsection \<open>The loop over one directory keeps its invariant\<close>

lemma rename_one_Done_cases:
  assumes run: "rename_one cd d j p (fns, w) = Done (fns', w')"
    and dst: "dst = dst_filename cd d j (fns ! p)"
  obtains
    (noop) "fns ! p = dst" "fns' = fns" "disk w' = disk w" "draws w' = draws w" "renames w' = renames w"
  | (plain) c where "fns ! p \<noteq> dst" "disk w dst = None" "disk w (fns ! p) = Some c"
      "fns' = fns" "disk w' = (disk w)(fns ! p := None, dst \<mapsto> c)" "draws w' = draws w"
      "renames w' = renames w @ [(fns ! p, dst)]"
  | (displace) b c tmp m where "fns ! p \<noteq> dst" "disk w dst = Some b"
      "gen_random_filename (disk w) (draws w) cd (snd (os_path_splitext (fns ! p))) = Some (tmp, draws w')"
      "list_index fns dst = Some m" "fns' = fns[m := tmp]"
      "((disk w)(dst := None, tmp \<mapsto> b)) (fns ! p) = Some c"
      "disk w' = (disk w)(dst := None, tmp \<mapsto> b, fns ! p := None, dst \<mapsto> c)"
      "renames w' = renames w @ [(dst, tmp), (fns ! p, dst)]"
proof (cases "fns ! p = dst")
  case True
  from True have "rename_one cd d j p (fns, w) = Done (fns, w\<lparr>bar := bar w + 1\<rparr>)"
    unfolding dst by (rule rename_one_noop)
  with run have "fns' = fns" "w' = w\<lparr>bar := bar w + 1\<rparr>" by simp_all
  then have "fns' = fns" "disk w' = disk w" "draws w' = draws w" "renames w' = renames w"
    by simp_all
  with True show ?thesis by (rule noop)
next
  case ne: False
  show ?thesis
  proof (cases "disk w dst")
    case None
    with run dst[symmetric] ne obtain c where "disk w (fns ! p) = Some c"
      "fns' = fns" "disk w' = (disk w)(fns ! p := None, dst \<mapsto> c)" "draws w' = draws w"
      "renames w' = renames w @ [(fns ! p, dst)]"
      by (auto simp add: rename_one_def Let_def os_path_exists_def sys_rename_def os_rename_def
          split: option.splits)
    with ne None show ?thesis by (rule plain)
  next
    case (Some b)
    with run dst[symmetric] ne obtain c tmp m where
      "gen_random_filename (disk w) (draws w) cd (snd (os_path_splitext (fns ! p))) = Some (tmp, draws w')"
      "list_index fns dst = Some m" "fns' = fns[m := tmp]"
      "((disk w)(dst := None, tmp \<mapsto> b)) (fns ! p) = Some c"
      "disk w' = (disk w)(dst := None, tmp \<mapsto> b, fns ! p := None, dst \<mapsto> c)"
      "renames w' = renames w @ [(dst, tmp), (fns ! p, dst)]"
      by (auto simp add: rename_one_def Let_def os_path_exists_def sys_rename_def os_rename_def
          split: option.splits prod.splits if_splits)
    with ne Some show ?thesis by (rule displace)
  qed
qed


lemma target_index_inj:
  assumes "0 < s" "dst_filename cd d (i + int q * s) f = dst_filename cd d (i + int q' * s) g"
  shows "q = q'"
proof -
  from dst_filename_inj[OF assms(2)] assms(1) have "int q = int q'" by simp
  then show ?thesis by simp
qed

lemma distinct_list_update_fresh:
  assumes "distinct xs" "a \<notin> set xs"
  shows "distinct (xs[m := a])"
  unfolding distinct_conv_nth
proof (intro allI impI)
  fix i j
  assume i: "i < length (xs[m := a])" and j: "j < length (xs[m := a])" and ne: "i \<noteq> j"
  from i j have li: "i < length xs" and lj: "j < length xs" by simp_all
  from assms(2) nth_mem[OF li] have ai: "a \<noteq> xs ! i" by blast
  from assms(2) nth_mem[OF lj] have aj: "a \<noteq> xs ! j" by blast
  from assms(1) li lj ne have "xs ! i \<noteq> xs ! j" by (simp add: nth_eq_iff_index_eq)
  with ai aj li lj ne show "xs[m := a] ! i \<noteq> xs[m := a] ! j"
    by (cases "i = m"; cases "j = m") simp_all
qed

lemma batch_inv_step:
  assumes ok: "batch_ok cd d i s fns0 w0"
    and inv: "batch_inv cd d i s fns0 w0 p fns w"
    and p: "p < length fns0"
    and run: "rename_one cd d (i + int p * s) p (fns, w) = Done (fns', w')"
  shows "batch_inv cd d i s fns0 w0 (Suc p) fns' w'"
proof -
  let ?T = "\<lambda>q f. dst_filename cd d (i + int q * s) f"
  let ?n = "length fns0"
  define src where "src = fns ! p"
  define dst where "dst = ?T p src"
  note O = ok[unfolded batch_ok_def os_path_exists_def]
  note d0 = O[THEN conjunct1]
  note ex0 = O[THEN conjunct2, THEN conjunct1]
  note s = O[THEN conjunct2, THEN conjunct2, THEN conjunct1]
  note av = O[THEN conjunct2, THEN conjunct2, THEN conjunct2]
  note I = inv[unfolded batch_inv_def]
  note len = I[THEN conjunct1]
  note dis = I[THEN conjunct2, THEN conjunct1]
  note sub = I[THEN conjunct2, THEN conjunct2, THEN conjunct1]
  note dsub = I[THEN conjunct2, THEN conjunct2, THEN conjunct2, THEN conjunct1]
  note fr = I[THEN conjunct2, THEN conjunct2, THEN conjunct2, THEN conjunct2, THEN conjunct1]
  note a = I[THEN conjunct2, THEN conjunct2, THEN conjunct2, THEN conjunct2, THEN conjunct2, THEN conjunct1]
  note b = I[THEN conjunct2, THEN conjunct2, THEN conjunct2, THEN conjunct2, THEN conjunct2, THEN conjunct2,
      THEN conjunct1]
  note sep = I[THEN conjunct2, THEN conjunct2, THEN conjunct2, THEN conjunct2, THEN conjunct2, THEN conjunct2,
      THEN conjunct2, THEN conjunct1]
  note c = I[THEN conjunct2, THEN conjunct2, THEN conjunct2, THEN conjunct2, THEN conjunct2, THEN conjunct2,
      THEN conjunct2, THEN conjunct2]
  from p len have pl: "p < length fns" by simp
  then have srcmem: "src \<in> set fns" by (simp add: src_def)
  note pd = dis[THEN conjunct1]
  note prov = dis[THEN conjunct2]
  have nth_ne: "\<And>k k'. p \<le> k \<Longrightarrow> k < ?n \<Longrightarrow> p \<le> k' \<Longrightarrow> k' < ?n \<Longrightarrow> k \<noteq> k' \<Longrightarrow>
      fns ! k \<noteq> fns ! k'"
    using pd by blast
  have pdS: "\<forall>k k'. Suc p \<le> k \<and> k < ?n \<and> Suc p \<le> k' \<and> k' < ?n \<and> k \<noteq> k' \<longrightarrow> fns ! k \<noteq> fns ! k'"
  proof (intro allI impI)
    fix k k' assume "Suc p \<le> k \<and> k < ?n \<and> Suc p \<le> k' \<and> k' < ?n \<and> k \<noteq> k'"
    then show "fns ! k \<noteq> fns ! k'" by (intro nth_ne) simp_all
  qed
  have pend: "\<And>k. p \<le> k \<Longrightarrow> k < ?n \<Longrightarrow> disk w (fns ! k) \<noteq> None"
  proof -
    fix k assume k: "p \<le> k" "k < ?n"
    with b have "disk w (fns ! k) = disk w0 (fns0 ! k)" by blast
    moreover from k ex0 have "disk w0 (fns0 ! k) \<noteq> None" by simp
    ultimately show "disk w (fns ! k) \<noteq> None" by simp
  qed
  have donex: "\<And>q. q < p \<Longrightarrow> disk w (?T q (fns ! q)) \<noteq> None"
  proof -
    fix q assume q: "q < p"
    with a have "disk w (?T q (fns ! q)) = disk w0 (fns0 ! q)" by blast
    moreover from q p ex0 have "disk w0 (fns0 ! q) \<noteq> None" by simp
    ultimately show "disk w (?T q (fns ! q)) \<noteq> None" by simp
  qed
  have tnd: "\<And>q f. q < ?n \<Longrightarrow> f \<in> set fns \<Longrightarrow> ?T q f \<notin> set (draws w0)"
  proof
    fix q f assume q: "q < ?n" and f: "f \<in> set fns" and m: "?T q f \<in> set (draws w0)"
    from f sub have "f \<in> set (fns0 @ draws w0)" by auto
    with av m q show False by blast
  qed
  have inj: "\<And>q q' f g. ?T q f = ?T q' g \<Longrightarrow> q = q'"
    using s by (rule target_index_inj)
  have srcex: "disk w src \<noteq> None" unfolding src_def using pend[of p] p by simp
  have src0: "(if src \<in> set fns0 then None else disk w0 src) = None"
    using fr srcmem by auto
  have dst_eq: "dst = dst_filename cd d (i + int p * s) (fns ! p)" by (simp add: dst_def src_def)
  have dst_done: "\<And>q. q < p \<Longrightarrow> ?T q (fns ! q) \<noteq> dst"
    unfolding dst_def using inj by blast
  have src_done: "\<And>q. q < p \<Longrightarrow> ?T q (fns ! q) \<noteq> src"
    unfolding src_def using sep p by blast
  from run dst_eq show ?thesis
  proof (cases rule: rename_one_Done_cases)
    case noop
    then have sd: "src = dst" by (simp add: src_def)
    have c6: "\<forall>q<Suc p. disk w' (?T q (fns' ! q)) = disk w0 (fns0 ! q)"
    proof (intro allI impI)
      fix q assume "q < Suc p"
      then consider "q < p" | "q = p" by linarith
      then show "disk w' (?T q (fns' ! q)) = disk w0 (fns0 ! q)"
      proof cases
        case 1
        with a noop(2,3) show ?thesis by simp
      next
        case 2
        have "?T p (fns ! p) = fns ! p" using sd by (simp add: dst_def src_def)
        moreover from b p have "disk w (fns ! p) = disk w0 (fns0 ! p)" by blast
        ultimately have "disk w (?T p (fns ! p)) = disk w0 (fns0 ! p)" by simp
        with 2 noop(2,3) show ?thesis by simp
      qed
    qed
    have c7: "\<forall>k. Suc p \<le> k \<and> k < ?n \<longrightarrow> disk w' (fns' ! k) = disk w0 (fns0 ! k)"
      using b noop(2,3) by simp
    have c8: "\<forall>q k. q < Suc p \<and> Suc p \<le> k \<and> k < ?n \<longrightarrow> ?T q (fns' ! q) \<noteq> fns' ! k"
    proof (intro allI impI)
      fix q k assume h: "q < Suc p \<and> Suc p \<le> k \<and> k < ?n"
      then consider "q < p" | "q = p" by linarith
      then show "?T q (fns' ! q) \<noteq> fns' ! k"
      proof cases
        case 1
        with sep h noop(2,3) show ?thesis by simp
      next
        case 2
        have "?T p (fns ! p) = fns ! p" using sd by (simp add: dst_def src_def)
        moreover from h p have "fns ! p \<noteq> fns ! k" by (intro nth_ne) simp_all
        ultimately show ?thesis using 2 noop(2,3) by simp
      qed
    qed
    have c9: "\<forall>x. (\<forall>q<Suc p. x \<noteq> ?T q (fns' ! q)) \<and> (\<forall>k. Suc p \<le> k \<and> k < ?n \<longrightarrow> x \<noteq> fns' ! k) \<longrightarrow>
          disk w' x = (if x \<in> set fns0 then None else disk w0 x)"
    proof (intro allI impI)
      fix x assume h: "(\<forall>q<Suc p. x \<noteq> ?T q (fns' ! q)) \<and> (\<forall>k. Suc p \<le> k \<and> k < ?n \<longrightarrow> x \<noteq> fns' ! k)"
      then have "x \<noteq> ?T p (fns' ! p)" by simp
      then have "x \<noteq> ?T p (fns ! p)" using noop(2) by simp
      then have xs: "x \<noteq> fns ! p" using sd by (simp add: dst_def src_def)
      have "\<forall>k. p \<le> k \<and> k < ?n \<longrightarrow> x \<noteq> fns ! k"
      proof (intro allI impI)
        fix k assume k: "p \<le> k \<and> k < ?n"
        show "x \<noteq> fns ! k"
        proof (cases "k = p")
          case True
          with xs show ?thesis by simp
        next
          case False
          with k h noop(2,3) show ?thesis by simp
        qed
      qed
      moreover from h noop(2,3) have "\<forall>q<p. x \<noteq> ?T q (fns ! q)" by simp
      ultimately have "disk w x = (if x \<in> set fns0 then None else disk w0 x)" using c by blast
      with noop(2,3) show "disk w' x = (if x \<in> set fns0 then None else disk w0 x)" by simp
    qed
    from pdS prov noop(2) have c2:
      "(\<forall>k k'. Suc p \<le> k \<and> k < ?n \<and> Suc p \<le> k' \<and> k' < ?n \<and> k \<noteq> k' \<longrightarrow> fns' ! k \<noteq> fns' ! k') \<and>
       (\<forall>k<?n. fns' ! k = fns0 ! k \<or> fns' ! k \<in> set (draws w0))" by simp
    from len c2 sub dsub fr noop(2,3,4) c6 c7 c8 c9 show ?thesis
      unfolding batch_inv_def by simp
  next
    case (plain c0)
    have dst_pend: "\<And>k. p \<le> k \<Longrightarrow> k < ?n \<Longrightarrow> fns ! k \<noteq> dst"
      using pend plain(2) by metis
    have dwx: "\<And>x. x \<noteq> src \<Longrightarrow> x \<noteq> dst \<Longrightarrow> disk w' x = disk w x"
      using plain(5) by (simp add: src_def)
    have dwd: "disk w' dst = disk w0 (fns0 ! p)"
      using plain(3,5) b p by simp
    have dws: "disk w' src = None"
      using plain(1,5) by (simp add: src_def)
    have c6: "\<forall>q<Suc p. disk w' (?T q (fns' ! q)) = disk w0 (fns0 ! q)"
    proof (intro allI impI)
      fix q assume "q < Suc p"
      then consider "q < p" | "q = p" by linarith
      then show "disk w' (?T q (fns' ! q)) = disk w0 (fns0 ! q)"
      proof cases
        case 1
        from dwx[OF src_done[OF 1] dst_done[OF 1]] a 1 plain(4) show ?thesis by simp
      next
        case 2
        with dwd plain(4) show ?thesis by (simp add: dst_def src_def)
      qed
    qed
    have c7: "\<forall>k. Suc p \<le> k \<and> k < ?n \<longrightarrow> disk w' (fns' ! k) = disk w0 (fns0 ! k)"
    proof (intro allI impI)
      fix k assume k: "Suc p \<le> k \<and> k < ?n"
      with p have "fns ! k \<noteq> src" unfolding src_def by (intro nth_ne) simp_all
      moreover from k have "fns ! k \<noteq> dst" by (intro dst_pend) simp_all
      ultimately have "disk w' (fns ! k) = disk w (fns ! k)" by (rule dwx)
      with b k plain(4) show "disk w' (fns' ! k) = disk w0 (fns0 ! k)" by simp
    qed
    have c8: "\<forall>q k. q < Suc p \<and> Suc p \<le> k \<and> k < ?n \<longrightarrow> ?T q (fns' ! q) \<noteq> fns' ! k"
    proof (intro allI impI)
      fix q k assume h: "q < Suc p \<and> Suc p \<le> k \<and> k < ?n"
      then consider "q < p" | "q = p" by linarith
      then show "?T q (fns' ! q) \<noteq> fns' ! k"
      proof cases
        case 1
        with sep h plain(4) show ?thesis by simp
      next
        case 2
        from h have "fns ! k \<noteq> dst" by (intro dst_pend) simp_all
        with 2 plain(4) show ?thesis by (auto simp add: dst_def src_def)
      qed
    qed
    have c9: "\<forall>x. (\<forall>q<Suc p. x \<noteq> ?T q (fns' ! q)) \<and> (\<forall>k. Suc p \<le> k \<and> k < ?n \<longrightarrow> x \<noteq> fns' ! k) \<longrightarrow>
          disk w' x = (if x \<in> set fns0 then None else disk w0 x)"
    proof (intro allI impI)
      fix x assume h: "(\<forall>q<Suc p. x \<noteq> ?T q (fns' ! q)) \<and> (\<forall>k. Suc p \<le> k \<and> k < ?n \<longrightarrow> x \<noteq> fns' ! k)"
      then have xd: "x \<noteq> dst" using plain(4) by (simp add: dst_def src_def)
      show "disk w' x = (if x \<in> set fns0 then None else disk w0 x)"
      proof (cases "x = src")
        case True
        with dws src0 show ?thesis by metis
      next
        case False
        have "\<forall>k. p \<le> k \<and> k < ?n \<longrightarrow> x \<noteq> fns ! k"
        proof (intro allI impI)
          fix k assume k: "p \<le> k \<and> k < ?n"
          show "x \<noteq> fns ! k"
          proof (cases "k = p")
            case True
            with False show ?thesis by (simp add: src_def)
          next
            case kp: False
            with k h plain(4) show ?thesis by simp
          qed
        qed
        moreover from h plain(4) have "\<forall>q<p. x \<noteq> ?T q (fns ! q)" by simp
        ultimately have "disk w x = (if x \<in> set fns0 then None else disk w0 x)" using c by blast
        with dwx[OF False xd] show ?thesis by simp
      qed
    qed
    from pdS prov plain(4) have c2:
      "(\<forall>k k'. Suc p \<le> k \<and> k < ?n \<and> Suc p \<le> k' \<and> k' < ?n \<and> k \<noteq> k' \<longrightarrow> fns' ! k \<noteq> fns' ! k') \<and>
       (\<forall>k<?n. fns' ! k = fns0 ! k \<or> fns' ! k \<in> set (draws w0))" by simp
    from len c2 sub dsub fr plain(4,6) c6 c7 c8 c9 show ?thesis
      unfolding batch_inv_def by simp
  next
    case (displace b0 c0 tmp m)
    from gen_random_filename_Some[OF displace(3)] obtain skipped where
      fresh: "disk w tmp = None" and dr: "draws w = skipped @ tmp # draws w'"
      by (auto simp add: os_path_exists_def)
    from list_index_Some[OF displace(4)] have ml: "m < length fns" and fm: "fns ! m = dst" by simp_all
    from dr have tdr: "tmp \<in> set (draws w)" by simp
    with dsub have td0: "tmp \<in> set (draws w0)" by blast
    have tpend: "\<And>k. p \<le> k \<Longrightarrow> k < ?n \<Longrightarrow> fns ! k \<noteq> tmp"
      using pend fresh by metis
    from fresh srcex have ts: "tmp \<noteq> src" by auto
    from fresh displace(2) have tdst: "tmp \<noteq> dst" by auto
    from displace(1) have sdst: "src \<noteq> dst" by (simp add: src_def)
    have tdone: "\<And>q. q < p \<Longrightarrow> ?T q (fns ! q) \<noteq> tmp"
      using donex fresh by metis
    have dst_nd: "dst \<notin> set (draws w0)"
      unfolding dst_def using tnd[OF p srcmem] .
    have m_pend: "p < m \<and> m < ?n"
    proof -
      have "\<exists>k. p \<le> k \<and> k < ?n \<and> dst = fns ! k"
      proof (rule ccontr)
        assume "\<not> (\<exists>k. p \<le> k \<and> k < ?n \<and> dst = fns ! k)"
        then have "\<forall>k. p \<le> k \<and> k < ?n \<longrightarrow> dst \<noteq> fns ! k" by blast
        moreover have "\<forall>q<p. dst \<noteq> ?T q (fns ! q)" using dst_done by metis
        ultimately have "disk w dst = (if dst \<in> set fns0 then None else disk w0 dst)" using c by blast
        with displace(2) have "dst \<notin> set fns0" by (auto split: if_splits)
        moreover from ml fm have "dst \<in> set fns" by (metis nth_mem)
        ultimately have "dst \<in> set (draws w0)" using sub by blast
        with dst_nd show False by simp
      qed
      then obtain k where k: "p \<le> k" "k < ?n" "dst = fns ! k" by blast
      from prov k(2) have "fns ! k = fns0 ! k \<or> fns ! k \<in> set (draws w0)" by blast
      with k(3) dst_nd have ok: "fns0 ! k = dst" by auto
      from prov ml len have "fns ! m = fns0 ! m \<or> fns ! m \<in> set (draws w0)" by simp
      with fm dst_nd have om: "fns0 ! m = dst" by auto
      from ml len have mn: "m < ?n" by simp
      from d0 mn k(2) have "(fns0 ! m = fns0 ! k) = (m = k)" by (rule nth_eq_iff_index_eq)
      with ok om have "m = k" by simp
      moreover from k sdst have "k \<noteq> p" by (auto simp add: src_def)
      ultimately show ?thesis using k by simp
    qed
    have low: "\<And>q. q \<le> p \<Longrightarrow> fns' ! q = fns ! q"
      using m_pend displace(5) by simp
    have dwx: "\<And>x. x \<noteq> src \<Longrightarrow> x \<noteq> dst \<Longrightarrow> x \<noteq> tmp \<Longrightarrow> disk w' x = disk w x"
      using displace(7) by (simp add: src_def)
    have c0: "disk w src = Some c0"
      using displace(6) sdst ts by (simp add: src_def)
    have dwd: "disk w' dst = disk w0 (fns0 ! p)"
      using displace(7) c0 b p by (simp add: src_def)
    have dws: "disk w' src = None"
      using displace(7) sdst by (simp add: src_def)
    have dwt: "disk w' tmp = disk w0 (fns0 ! m)"
    proof -
      from displace(7) ts tdst have "disk w' tmp = Some b0" by (simp add: src_def)
      also from displace(2) fm have "\<dots> = disk w (fns ! m)" by simp
      also from b m_pend have "\<dots> = disk w0 (fns0 ! m)" by simp
      finally show ?thesis .
    qed
    have c1: "length fns' = ?n" using len displace(5) by simp
    have c2: "(\<forall>k k'. Suc p \<le> k \<and> k < ?n \<and> Suc p \<le> k' \<and> k' < ?n \<and> k \<noteq> k' \<longrightarrow> fns' ! k \<noteq> fns' ! k') \<and>
       (\<forall>k<?n. fns' ! k = fns0 ! k \<or> fns' ! k \<in> set (draws w0))"
    proof (intro conjI allI impI)
      fix k k' assume h: "Suc p \<le> k \<and> k < ?n \<and> Suc p \<le> k' \<and> k' < ?n \<and> k \<noteq> k'"
      consider "k = m" | "k' = m" | "k \<noteq> m" "k' \<noteq> m" by blast
      then show "fns' ! k \<noteq> fns' ! k'"
      proof cases
        case 1
        with h have "fns ! k' \<noteq> tmp" by (intro tpend) simp_all
        with 1 h ml displace(5) show ?thesis by auto
      next
        case 2
        with h have "fns ! k \<noteq> tmp" by (intro tpend) simp_all
        with 2 h ml displace(5) show ?thesis by auto
      next
        case 3
        from h have "fns ! k \<noteq> fns ! k'" by (intro nth_ne) simp_all
        with 3 displace(5) show ?thesis by simp
      qed
    next
      fix k assume k: "k < ?n"
      show "fns' ! k = fns0 ! k \<or> fns' ! k \<in> set (draws w0)"
      proof (cases "k = m")
        case True
        with td0 ml displace(5) show ?thesis by simp
      next
        case False
        with prov k displace(5) show ?thesis by simp
      qed
    qed
    have sf: "set fns' \<subseteq> insert tmp (set fns)"
      unfolding displace(5) by (rule set_update_subset_insert)
    have c3: "set fns' \<subseteq> set fns0 \<union> set (draws w0)" using sf sub td0 by blast
    have c4: "set (draws w') \<subseteq> set (draws w0)" using dr dsub by auto
    have t0: "tmp \<notin> set fns0 \<Longrightarrow> disk w0 tmp = None"
    proof -
      assume tn0: "tmp \<notin> set fns0"
      have "\<forall>q<p. tmp \<noteq> ?T q (fns ! q)" using tdone by metis
      moreover have "\<forall>k. p \<le> k \<and> k < ?n \<longrightarrow> tmp \<noteq> fns ! k"
        using tpend by metis
      ultimately have "disk w tmp = (if tmp \<in> set fns0 then None else disk w0 tmp)" using c by blast
      with fresh tn0 show ?thesis by simp
    qed
    have c5: "\<forall>t\<in>set fns'. t \<notin> set fns0 \<longrightarrow> disk w0 t = None"
      using sf fr t0 by blast
    have c6: "\<forall>q<Suc p. disk w' (?T q (fns' ! q)) = disk w0 (fns0 ! q)"
    proof (intro allI impI)
      fix q assume "q < Suc p"
      then consider "q < p" | "q = p" by linarith
      then show "disk w' (?T q (fns' ! q)) = disk w0 (fns0 ! q)"
      proof cases
        case 1
        from dwx[OF src_done[OF 1] dst_done[OF 1] tdone[OF 1]] a 1 low[of q] show ?thesis by simp
      next
        case 2
        with dwd low[of p] show ?thesis by (simp add: dst_def src_def)
      qed
    qed
    have c7: "\<forall>k. Suc p \<le> k \<and> k < ?n \<longrightarrow> disk w' (fns' ! k) = disk w0 (fns0 ! k)"
    proof (intro allI impI)
      fix k assume k: "Suc p \<le> k \<and> k < ?n"
      show "disk w' (fns' ! k) = disk w0 (fns0 ! k)"
      proof (cases "k = m")
        case True
        with dwt ml displace(5) show ?thesis by simp
      next
        case False
        then have fk: "fns' ! k = fns ! k" using displace(5) by simp
        from k p have "fns ! k \<noteq> src" unfolding src_def by (intro nth_ne) simp_all
        moreover from k False m_pend have "fns ! k \<noteq> dst" unfolding fm[symmetric] by (intro nth_ne) simp_all
        moreover from k have "fns ! k \<noteq> tmp" by (intro tpend) simp_all
        ultimately have "disk w' (fns ! k) = disk w (fns ! k)" by (rule dwx)
        with b k fk show ?thesis by simp
      qed
    qed
    have c8: "\<forall>q k. q < Suc p \<and> Suc p \<le> k \<and> k < ?n \<longrightarrow> ?T q (fns' ! q) \<noteq> fns' ! k"
    proof (intro allI impI)
      fix q k assume h: "q < Suc p \<and> Suc p \<le> k \<and> k < ?n"
      then have fq: "fns' ! q = fns ! q" by (intro low) simp
      from h consider "q < p" | "q = p" by linarith
      then show "?T q (fns' ! q) \<noteq> fns' ! k"
      proof cases
        case 1
        show ?thesis
        proof (cases "k = m")
          case True
          with tdone[OF 1] fq ml displace(5) show ?thesis by simp
        next
          case False
          with sep h 1 fq displace(5) show ?thesis by simp
        qed
      next
        case 2
        then have tq: "?T q (fns' ! q) = dst" using fq by (simp add: dst_def src_def)
        show ?thesis
        proof (cases "k = m")
          case True
          with tq tdst ml displace(5) show ?thesis by simp
        next
          case False
          with h m_pend have "fns ! m \<noteq> fns ! k" by (intro nth_ne) simp_all
          with tq fm False displace(5) show ?thesis by simp
        qed
      qed
    qed
    have c9: "\<forall>x. (\<forall>q<Suc p. x \<noteq> ?T q (fns' ! q)) \<and> (\<forall>k. Suc p \<le> k \<and> k < ?n \<longrightarrow> x \<noteq> fns' ! k) \<longrightarrow>
          disk w' x = (if x \<in> set fns0 then None else disk w0 x)"
    proof (intro allI impI)
      fix x assume h: "(\<forall>q<Suc p. x \<noteq> ?T q (fns' ! q)) \<and> (\<forall>k. Suc p \<le> k \<and> k < ?n \<longrightarrow> x \<noteq> fns' ! k)"
      then have "x \<noteq> ?T p (fns' ! p)" by simp
      then have xd: "x \<noteq> dst" using low[of p] by (simp add: dst_def src_def)
      from h m_pend have "x \<noteq> fns' ! m" by simp
      then have xt: "x \<noteq> tmp" using ml displace(5) by simp
      show "disk w' x = (if x \<in> set fns0 then None else disk w0 x)"
      proof (cases "x = src")
        case True
        with dws src0 show ?thesis by metis
      next
        case False
        have "\<forall>k. p \<le> k \<and> k < ?n \<longrightarrow> x \<noteq> fns ! k"
        proof (intro allI impI)
          fix k assume k: "p \<le> k \<and> k < ?n"
          consider "k = p" | "k = m" | "k \<noteq> p" "k \<noteq> m" by blast
          then show "x \<noteq> fns ! k"
          proof cases
            case 1
            with False show ?thesis by (simp add: src_def)
          next
            case 2
            with xd fm show ?thesis by simp
          next
            case 3
            with k h have "x \<noteq> fns' ! k" by simp
            with 3 displace(5) show ?thesis by simp
          qed
        qed
        moreover have "\<forall>q<p. x \<noteq> ?T q (fns ! q)"
        proof (intro allI impI)
          fix q assume q: "q < p"
          with h have "x \<noteq> ?T q (fns' ! q)" by simp
          with low[of q] q show "x \<noteq> ?T q (fns ! q)" by simp
        qed
        ultimately have "disk w x = (if x \<in> set fns0 then None else disk w0 x)" using c by blast
        with dwx[OF False xd xt] show ?thesis by simp
      qed
    qed
    from c1 c2 c3 c4 c5 c6 c7 c8 c9 show ?thesis
      unfolding batch_inv_def by simp
  qed
qed

lemma batch_inv_start:
  assumes ok: "batch_ok cd d i s fns0 w0"
  shows "batch_inv cd d i s fns0 w0 0 fns0 w0"
proof -
  note O = ok[unfolded batch_ok_def]
  note d0 = O[THEN conjunct1]
  have c: "\<forall>x. (\<forall>q<0. x \<noteq> dst_filename cd d (i + int q * s) (fns0 ! q)) \<and>
            (\<forall>k. 0 \<le> k \<and> k < length fns0 \<longrightarrow> x \<noteq> fns0 ! k) \<longrightarrow>
            disk w0 x = (if x \<in> set fns0 then None else disk w0 x)"
  proof (intro allI impI)
    fix x
    assume "(\<forall>q<0. x \<noteq> dst_filename cd d (i + int q * s) (fns0 ! q)) \<and>
            (\<forall>k. 0 \<le> k \<and> k < length fns0 \<longrightarrow> x \<noteq> fns0 ! k)"
    then have "x \<notin> set fns0" by (auto simp add: in_set_conv_nth)
    then show "disk w0 x = (if x \<in> set fns0 then None else disk w0 x)" by simp
  qed
  from d0 have pd: "\<forall>k k'. 0 \<le> k \<and> k < length fns0 \<and> 0 \<le> k' \<and> k' < length fns0 \<and> k \<noteq> k' \<longrightarrow>
      fns0 ! k \<noteq> fns0 ! k'" by (simp add: nth_eq_iff_index_eq)
  from pd c show ?thesis unfolding batch_inv_def by simp
qed

lemma rename_loop_Done_Cons:
  assumes "rename_loop cd d (jp # rest) st = Done st'"
  obtains st1 where "rename_one cd d (fst jp) (snd jp) st = Done st1"
    and "rename_loop cd d rest st1 = Done st'"
  using assms by (cases "rename_one cd d (fst jp) (snd jp) st") simp_all

lemma batch_inv_loop:
  assumes ok: "batch_ok cd d i s fns0 w0"
  shows "batch_inv cd d i s fns0 w0 p fns w \<Longrightarrow> p \<le> length fns0 \<Longrightarrow>
         rename_loop cd d (enumerate_with_step [p..<length fns0] (i + int p * s) s) (fns, w) = Done (fns', w') \<Longrightarrow>
         batch_inv cd d i s fns0 w0 (length fns0) fns' w'"
proof (induction "length fns0 - p" arbitrary: p fns w)
  case 0
  then have "p = length fns0" by simp
  with 0 show ?case by simp
next
  case (Suc k)
  then have p: "p < length fns0" by simp
  then have up: "[p..<length fns0] = p # [Suc p..<length fns0]" by (rule upt_conv_Cons)
  have idx: "i + int p * s + s = i + int (Suc p) * s" by (simp add: algebra_simps)
  from Suc.prems(3) have run: "rename_loop cd d ((i + int p * s, p) #
      enumerate_with_step [Suc p..<length fns0] (i + int (Suc p) * s) s) (fns, w) = Done (fns', w')"
    by (simp add: up idx)
  from run obtain st1 where one: "rename_one cd d (i + int p * s) p (fns, w) = Done st1"
    and rest: "rename_loop cd d (enumerate_with_step [Suc p..<length fns0] (i + int (Suc p) * s) s) st1 = Done (fns', w')"
    by (rule rename_loop_Done_Cons) simp_all
  obtain fns1 w1 where st1: "st1 = (fns1, w1)" by (cases st1)
  from batch_inv_step[OF ok Suc.prems(1) p one[unfolded st1]]
  have inv1: "batch_inv cd d i s fns0 w0 (Suc p) fns1 w1" .
  from Suc.hyps(2) have k: "k = length fns0 - Suc p" by simp
  from p have le: "Suc p \<le> length fns0" by simp
  from Suc.hyps(1)[OF k inv1 le rest[unfolded st1]] show ?case .
qed

lemma batch_inv_run:
  assumes ok: "batch_ok cd d i s fns0 w0"
    and run: "rename_batch cd d i s fns0 w0 = Done (fns', w')"
  shows "batch_inv cd d i s fns0 w0 (length fns0) fns' w'"
proof -
  from run have "rename_loop cd d (enumerate_with_step [0..<length fns0] (i + int 0 * s) s) (fns0, w0) = Done (fns', w')"
    by (simp add: rename_batch_def)
  then have "rename_loop cd d (enumerate_with_step [0..<length fns0] (i + int 0 * s) s) (fns0, w0) = Done (fns', w')" .
  from batch_inv_loop[OF ok batch_inv_start[OF ok] _ this] show ?thesis by simp
qed

text \<open>What the invariant says when the whole list is done.\<close>

lemma batch_inv_final:
  assumes ok: "batch_ok cd d i s fns0 w0"
    and inv: "batch_inv cd d i s fns0 w0 (length fns0) fns' w'"
  shows "length fns' = length fns0"
    and "\<And>q. q < length fns0 \<Longrightarrow> disk w' (targets cd d i s fns' ! q) = disk w0 (fns0 ! q)"
    and "\<And>x. x \<notin> set (targets cd d i s fns') \<Longrightarrow> disk w' x = (if x \<in> set fns0 then None else disk w0 x)"
    and "\<And>t. t \<in> set fns' \<Longrightarrow> t \<notin> set fns0 \<Longrightarrow> disk w' t = None"
proof -
  let ?T = "\<lambda>q f. dst_filename cd d (i + int q * s) f"
  let ?n = "length fns0"
  note O = ok[unfolded batch_ok_def os_path_exists_def]
  note av = O[THEN conjunct2, THEN conjunct2, THEN conjunct2]
  note I = inv[unfolded batch_inv_def]
  note len = I[THEN conjunct1]
  note sub = I[THEN conjunct2, THEN conjunct2, THEN conjunct1]
  note fr = I[THEN conjunct2, THEN conjunct2, THEN conjunct2, THEN conjunct2, THEN conjunct1]
  note a = I[THEN conjunct2, THEN conjunct2, THEN conjunct2, THEN conjunct2, THEN conjunct2, THEN conjunct1]
  note c = I[THEN conjunct2, THEN conjunct2, THEN conjunct2, THEN conjunct2, THEN conjunct2, THEN conjunct2,
      THEN conjunct2, THEN conjunct2]
  show "length fns' = ?n" by (rule len)
  have tq: "\<And>q. q < ?n \<Longrightarrow> targets cd d i s fns' ! q = ?T q (fns' ! q)"
    using len by (simp add: targets_def enumerate_with_step_nth)
  show "\<And>q. q < ?n \<Longrightarrow> disk w' (targets cd d i s fns' ! q) = disk w0 (fns0 ! q)"
    using a tq by simp
  have other: "\<And>x. x \<notin> set (targets cd d i s fns') \<Longrightarrow> disk w' x = (if x \<in> set fns0 then None else disk w0 x)"
  proof -
    fix x assume x: "x \<notin> set (targets cd d i s fns')"
    have "\<forall>q<?n. x \<noteq> ?T q (fns' ! q)"
    proof (intro allI impI)
      fix q assume q: "q < ?n"
      then have "targets cd d i s fns' ! q \<in> set (targets cd d i s fns')"
        using len by (intro nth_mem) (simp add: targets_def)
      with x tq[OF q] show "x \<noteq> ?T q (fns' ! q)" by metis
    qed
    moreover have "\<forall>k. ?n \<le> k \<and> k < ?n \<longrightarrow> x \<noteq> fns' ! k" by auto
    ultimately show "disk w' x = (if x \<in> set fns0 then None else disk w0 x)"
      using c by blast
  qed
  then show "\<And>x. x \<notin> set (targets cd d i s fns') \<Longrightarrow> disk w' x = (if x \<in> set fns0 then None else disk w0 x)" .
  show "\<And>t. t \<in> set fns' \<Longrightarrow> t \<notin> set fns0 \<Longrightarrow> disk w' t = None"
  proof -
    fix t assume t: "t \<in> set fns'" "t \<notin> set fns0"
    with sub have td: "t \<in> set (draws w0)" by blast
    have "t \<notin> set (targets cd d i s fns')"
    proof
      assume "t \<in> set (targets cd d i s fns')"
      then obtain q where q: "q < ?n" "t = targets cd d i s fns' ! q"
        using len by (auto simp add: in_set_conv_nth targets_def)
      with tq have "t = ?T q (fns' ! q)" by simp
      moreover from q len have "fns' ! q \<in> set fns'" by simp
      with sub have "fns' ! q \<in> set (fns0 @ draws w0)" by auto
      ultimately show False using av td q(1) by blast
    qed
    from other[OF this] t fr show "disk w' t = None" by simp
  qed
qed

lemma is_done_obtain:
  assumes "is_done r"
  obtains st where "r = Done st"
  using assms by (cases r) simp_all

subsection \<open>Values used by the example runs\<close>

lemma shift_facts:
  "dst_filename ''d'' 3 2 ''d/001.jpg'' = ''d/002.jpg''"
  "dst_filename ''d'' 3 3 ''d/001.jpg'' = ''d/003.jpg''"
  "dst_filename ''d'' 3 2 ''d/002.jpg'' = ''d/002.jpg''"
  "dst_filename ''d'' 3 3 ''d/002.jpg'' = ''d/003.jpg''"
  "dst_filename ''d'' 3 2 ''d/tmp.jpg'' = ''d/002.jpg''"
  "dst_filename ''d'' 3 3 ''d/tmp.jpg'' = ''d/003.jpg''"
  "os_path_splitext ''d/001.jpg'' = (''d/001'', ''.jpg'')"
  "os_path_splitext ''d/tmp.jpg'' = (''d/tmp'', ''.jpg'')"
  "enumerate_with_step [0..<2] 2 1 = [(2, 0), (3, 1)]"
  by code_simp+

lemma stale_targets:
  "dst_filename ''d'' 3 2 ''d/001.jpg'' = ''d/002.jpg''"
  "dst_filename ''d'' 3 3 ''d/005.jpg'' = ''d/003.jpg''"
  "dst_filename ''d'' 3 4 ''d/2a.jpg'' = ''d/004.jpg''"
  "dst_filename ''d'' 3 5 ''d/3.jpg'' = ''d/005.jpg''"
  "dst_filename ''d'' 3 6 ''d/005.jpg'' = ''d/006.jpg''"
  "os_path_splitext ''d/001.jpg'' = (''d/001'', ''.jpg'')"
  "os_path_splitext ''d/2a.jpg'' = (''d/2a'', ''.jpg'')"
  "os_path_splitext ''d/3.jpg'' = (''d/3'', ''.jpg'')"
  "os_path_splitext ''d/005.jpg'' = (''d/005'', ''.jpg'')"
  "enumerate_with_step [0..<5] 2 1 = [(2, 0), (3, 1), (4, 2), (5, 3), (6, 4)]"
  by code_simp+

subsection \<open>Targets are fixed points; the natural order of targets\<close>




















lemma length_target_names [simp]: "length (target_names d i s fns) = length fns"
  by (simp add: target_names_def)






















section \<open>The claims\<close>



text \<open>
  C2. If the destination exists on disk but is not in the in-memory list, the two error
  messages are logged and the run ends there: the remaining files and all remaining
  directories are left unprocessed.
\<close>

theorem inconsistency_aborts_run:
  assumes batch: "fns0 = batch_of (extensions c) current_dir (listfiles env (disk w0) current_dir)"
    and p: "p < length fns0"
    and before: "rename_loop current_dir (nat (digit c)) (enumerate_with_step [0..<p] (initial_number c) (step c)) (fns0, w0) = Done (fns, w)"
    and dst: "dst = dst_filename current_dir (nat (digit c)) (initial_number c + int p * step c) (fns ! p)"
    and ne: "fns ! p \<noteq> dst"
    and ex: "os_path_exists (disk w) dst"
    and nin: "dst \<notin> set fns"
    and gen: "gen_random_filename (disk w) (draws w) current_dir (snd (os_path_splitext (fns ! p))) = Some (tmp, ds)"
  shows "rename_dirs c env (current_dir # more_dirs) w0 =
           Aborted (w\<lparr>draws := ds,
             errors := errors w @ [''Existed filename suddenly dissappeared!'',
                                   ''Unexpected error occurred! Abort...'']\<rparr>)"
proof -
  let ?w' = "w\<lparr>draws := ds, errors := errors w @ [''Existed filename suddenly dissappeared!'',
                                   ''Unexpected error occurred! Abort...'']\<rparr>"
  have one: "rename_one current_dir (nat (digit c)) (initial_number c + int p * step c) p (fns, w) = Aborted (fns, ?w')"
    using ne ex nin gen unfolding dst by (rule rename_one_abort)
  have "rename_batch current_dir (nat (digit c)) (initial_number c) (step c) fns0 w0 = Aborted (fns, ?w')"
    by (simp add: rename_batch_split[OF p] before one)
  moreover from p have "fns0 \<noteq> []" by auto
  ultimately show ?thesis
    using batch by (simp add: Let_def)
qed

theorem inconsistency_aborts_run_witness:
  "rename_dirs example_config (example_env [''a.jpg'']) [''d'', ''d/sub'']
      (mk_world [(''d/a.jpg'', 11), (''d/001.jpg'', 22), (''d/sub/b.jpg'', 33)] [''d/tmp.jpg'']) =
     Aborted ((mk_world [(''d/a.jpg'', 11), (''d/001.jpg'', 22), (''d/sub/b.jpg'', 33)] [])
       \<lparr>errors := [''Existed filename suddenly dissappeared!'', ''Unexpected error occurred! Abort...'']\<rparr>)"
proof -
  let ?w = "mk_world [(''d/a.jpg'', 11::nat), (''d/001.jpg'', 22), (''d/sub/b.jpg'', 33)] [''d/tmp.jpg'']"
  let ?c = example_config
  let ?env = "example_env [''a.jpg'']"
  have j: "os_path_join ''d'' ''a.jpg'' = ''d/a.jpg''" by code_simp
  have ls: "listfiles ?env (disk ?w) ''d'' = [''a.jpg'']"
    by (simp add: example_env_def mk_world_def os_path_exists_def j)
  have bo: "batch_of [''.jpg''] ''d'' [''a.jpg''] = [''d/a.jpg'']" by code_simp
  have batch: "[''d/a.jpg''] = batch_of (extensions ?c) ''d'' (listfiles ?env (disk ?w) ''d'')"
    by (simp add: ls bo example_config_def)
  have p: "0 < length [''d/a.jpg'']" by simp
  have before: "rename_loop ''d'' (nat (digit ?c)) (enumerate_with_step [0..<0] (initial_number ?c) (step ?c))
      ([''d/a.jpg''], ?w) = Done ([''d/a.jpg''], ?w)" by simp
  have d0: "dst_filename ''d'' 3 1 ''d/a.jpg'' = ''d/001.jpg''" by code_simp
  have dst: "''d/001.jpg'' = dst_filename ''d'' (nat (digit ?c)) (initial_number ?c + int 0 * step ?c) ([''d/a.jpg''] ! 0)"
    by (simp add: example_config_def d0)
  have ne: "[''d/a.jpg''] ! 0 \<noteq> ''d/001.jpg''" by simp
  have ex: "os_path_exists (disk ?w) ''d/001.jpg''" by (simp add: mk_world_def os_path_exists_def)
  have nin: "''d/001.jpg'' \<notin> set [''d/a.jpg'']" by simp
  have gen: "gen_random_filename (disk ?w) (draws ?w) ''d'' (snd (os_path_splitext ([''d/a.jpg''] ! 0))) =
      Some (''d/tmp.jpg'', [])"
    by (simp add: mk_world_def os_path_exists_def)
  from inconsistency_aborts_run[OF batch p before dst ne ex nin gen, of "[''d/sub'']"]
  show ?thesis by (simp add: mk_world_def)
qed

text \<open>
  C5. The target name is the directory joined with the zero-padded decimal text of the
  index followed by the extension of the source name; the padded text is as wide as the
  digit width or, when the decimal text is wider, the decimal text itself, uncut; and
  the decimal text denotes the index.
\<close>

theorem target_name_zero_padded:
  "dst_filename current_dir d i filename =
     os_path_join current_dir (py_format_zero i d @ snd (os_path_splitext filename)) \<and>
   length (py_format_zero i d) = max d (length (py_str i)) \<and>
   (0 \<le> i \<longrightarrow> py_format_zero i d = replicate (d - length (py_str i)) CHR ''0'' @ py_str i) \<and>
   (i < 0 \<longrightarrow> py_format_zero i d =
      CHR ''-'' # replicate (d - length (py_str i)) CHR ''0'' @ tl (py_str i)) \<and>
   (d \<le> length (py_str i) \<longrightarrow> py_format_zero i d = py_str i) \<and>
   (0 \<le> i \<longrightarrow> int (int_of_digits (py_str i)) = i)"
proof -
  have "length (py_format_zero i d) = max d (length (py_str i))"
    using length_str_nat_pos[of "nat (- i)"]
    by (auto simp add: py_format_zero_def py_str_def Let_def)
  moreover have "d \<le> length (py_str i) \<longrightarrow> py_format_zero i d = py_str i"
    by (auto simp add: py_format_zero_def py_str_def Let_def)
  moreover have "0 \<le> i \<longrightarrow> int (int_of_digits (py_str i)) = i"
    by (simp add: py_str_def int_of_digits_str_nat)
  ultimately show ?thesis
    by (simp add: dst_filename_def py_format_zero_def py_str_def Let_def)
qed

theorem target_name_zero_padded_witness:
  "(0::int) \<le> 7 \<and> dst_filename ''d'' 3 7 ''d/a.jpg'' = ''d/007.jpg'' \<and>
   length (py_format_zero 7 3) = 3 \<and>
   (3::nat) \<le> length (py_str 1234) \<and> py_format_zero 1234 3 = ''1234'' \<and>
   dst_filename ''d'' 3 1234 ''d/a.jpg'' = ''d/1234.jpg''"
proof -
  have s7: "py_str 7 = ''7''" and s1234: "py_str 1234 = ''1234''"
    and f7: "py_format_zero 7 3 = ''007''"
    and e: "os_path_splitext ''d/a.jpg'' = (''d/a'', ''.jpg'')"
    and j7: "os_path_join ''d'' ''007.jpg'' = ''d/007.jpg''"
    and j1234: "os_path_join ''d'' ''1234.jpg'' = ''d/1234.jpg''"
    by code_simp+
  have wide: "(3::nat) \<le> length (py_str 1234)" by (simp add: s1234)
  from target_name_zero_padded[of "''d''" 3 7 "''d/a.jpg''"]
  have a: "dst_filename ''d'' 3 7 ''d/a.jpg'' = ''d/007.jpg''"
    and l: "length (py_format_zero 7 3) = 3"
    by (simp_all add: f7 e j7 s7)
  from target_name_zero_padded[of "''d''" 3 1234 "''d/a.jpg''"] wide
  have b: "py_format_zero 1234 3 = ''1234''" by (simp add: s1234)
  from target_name_zero_padded[of "''d''" 3 1234 "''d/a.jpg''"] b
  have c: "dst_filename ''d'' 3 1234 ''d/a.jpg'' = ''d/1234.jpg''" by (simp add: e j1234)
  from a l wide b c show ?thesis by simp
qed



text \<open>
  C7. When the target directory is not a directory, or the digit width is outside
  \<open>[3, 9]\<close>, or the step is not positive, the run is rejected with the disk untouched
  and no rename issued, and the log holds the message of every violation present: no
  check is skipped because an earlier one failed.
\<close>

theorem invalid_input_rejected:
  assumes "\<not> isdir env (target_dir c) \<or> digit c < 3 \<or> 9 < digit c \<or> step c \<le> 0"
  shows "rename c env w = Rejected (w\<lparr>errors := errors w @ snd (input_is_valid c env)\<rparr>) \<and>
         disk (w\<lparr>errors := errors w @ snd (input_is_valid c env)\<rparr>) = disk w \<and>
         renames (w\<lparr>errors := errors w @ snd (input_is_valid c env)\<rparr>) = renames w \<and>
         (\<not> isdir env (target_dir c) \<longrightarrow> msg_target_dir \<in> set (snd (input_is_valid c env))) \<and>
         (digit c < 3 \<or> 9 < digit c \<longrightarrow> msg_digit \<in> set (snd (input_is_valid c env))) \<and>
         (\<not> list_all is_extension (extensions c) \<longrightarrow> msg_extension \<in> set (snd (input_is_valid c env))) \<and>
         (initial_number c < 0 \<longrightarrow> msg_initial_number \<in> set (snd (input_is_valid c env))) \<and>
         (step c \<le> 0 \<longrightarrow> msg_step \<in> set (snd (input_is_valid c env)))"
proof -
  from assms have "\<not> fst (input_is_valid c env)"
    by (auto simp add: input_is_valid_fst)
  then have "rename c env w = Rejected (w\<lparr>errors := errors w @ snd (input_is_valid c env)\<rparr>)"
    by (cases "input_is_valid c env") (simp add: rename_def)
  with input_is_valid_msgs[of env c] show ?thesis by simp
qed

theorem invalid_input_rejected_witness:
  "digit (example_config\<lparr>digit := 2, step := 0\<rparr>) < 3 \<and>
   step (example_config\<lparr>digit := 2, step := 0\<rparr>) \<le> 0 \<and>
   rename (example_config\<lparr>digit := 2, step := 0\<rparr>) (example_env [''a.jpg'']) (mk_world [(''d/a.jpg'', 11)] []) =
     Rejected ((mk_world [(''d/a.jpg'', 11)] [])\<lparr>errors := [msg_digit, msg_step]\<rparr>) \<and>
   msg_digit \<in> set (snd (input_is_valid (example_config\<lparr>digit := 2, step := 0\<rparr>) (example_env [''a.jpg'']))) \<and>
   msg_step \<in> set (snd (input_is_valid (example_config\<lparr>digit := 2, step := 0\<rparr>) (example_env [''a.jpg''])))"
proof -
  let ?c = "example_config\<lparr>digit := 2, step := 0\<rparr>"
  have h: "\<not> isdir (example_env [''a.jpg'']) (target_dir ?c) \<or> digit ?c < 3 \<or> 9 < digit ?c \<or> step ?c \<le> 0"
    by (simp add: example_config_def)
  have v: "snd (input_is_valid ?c (example_env [''a.jpg''])) = [msg_digit, msg_step]"
    by (simp add: input_is_valid_def example_config_def example_env_def check_def is_in_range_def
        is_extension_def is_positive_number_def is_bool_def Let_def)
  note r = invalid_input_rejected[OF h, of "mk_world [(''d/a.jpg'', 11)] []", unfolded v]
  from r show ?thesis
    by (simp add: v) (simp add: example_config_def mk_world_def)
qed

text \<open>
  C8. A file whose path equals its computed target is left untouched: the iteration
  issues no rename, changes neither disk nor list, ticks the progress bar and the loop
  goes on with the next file.
\<close>

theorem already_named_untouched:
  assumes "fns ! p = dst_filename current_dir d j (fns ! p)"
  shows "rename_one current_dir d j p (fns, w) = Done (fns, w\<lparr>bar := bar w + 1\<rparr>) \<and>
         disk (w\<lparr>bar := bar w + 1\<rparr>) = disk w \<and>
         renames (w\<lparr>bar := bar w + 1\<rparr>) = renames w \<and>
         rename_loop current_dir d ((j, p) # rest) (fns, w) =
           rename_loop current_dir d rest (fns, w\<lparr>bar := bar w + 1\<rparr>)"
  using assms by (simp add: rename_one_noop)

theorem already_named_untouched_witness:
  "[''d/001.jpg''] ! 0 = dst_filename ''d'' 3 1 ([''d/001.jpg''] ! 0) \<and>
   rename_one ''d'' 3 1 0 ([''d/001.jpg''], mk_world [(''d/001.jpg'', 11::nat)] []) =
     Done ([''d/001.jpg''], (mk_world [(''d/001.jpg'', 11)] [])\<lparr>bar := 1\<rparr>) \<and>
   rename_loop ''d'' 3 [(1, 0)] ([''d/001.jpg''], mk_world [(''d/001.jpg'', 11::nat)] []) =
     Done ([''d/001.jpg''], (mk_world [(''d/001.jpg'', 11)] [])\<lparr>bar := 1\<rparr>)"
proof -
  have h: "[''d/001.jpg''] ! 0 = dst_filename ''d'' 3 1 ([''d/001.jpg''] ! 0)" by code_simp
  from already_named_untouched[OF h, of "mk_world [(''d/001.jpg'', 11::nat)] []" "[]"] h
  show ?thesis by (simp add: mk_world_def)
qed

text \<open>
  C10. When an iteration ends with the inconsistency error, it has renamed nothing: the
  disk and the list are those of the start of the iteration and no rename call was
  issued; the destination existed and was absent from the list.
\<close>

theorem abort_leaves_directory:
  assumes "rename_one current_dir d j p (fns, w) = Aborted (fns', w')"
  shows "disk w' = disk w \<and> renames w' = renames w \<and> fns' = fns \<and>
         os_path_exists (disk w) (dst_filename current_dir d j (fns ! p)) \<and>
         dst_filename current_dir d j (fns ! p) \<notin> set fns"
  using rename_one_Aborted[OF assms] by simp

theorem abort_leaves_directory_witness:
  "rename_one ''d'' 3 1 0 ([''d/a.jpg''], mk_world [(''d/a.jpg'', 11::nat), (''d/001.jpg'', 22)] [''d/tmp.jpg'']) =
     Aborted ([''d/a.jpg''],
       (mk_world [(''d/a.jpg'', 11), (''d/001.jpg'', 22)] [])
         \<lparr>errors := [''Existed filename suddenly dissappeared!'', ''Unexpected error occurred! Abort...'']\<rparr>) \<and>
   disk ((mk_world [(''d/a.jpg'', 11::nat), (''d/001.jpg'', 22)] [])
         \<lparr>errors := [''Existed filename suddenly dissappeared!'', ''Unexpected error occurred! Abort...'']\<rparr>) =
     disk (mk_world [(''d/a.jpg'', 11::nat), (''d/001.jpg'', 22)] [''d/tmp.jpg'']) \<and>
   renames ((mk_world [(''d/a.jpg'', 11::nat), (''d/001.jpg'', 22)] [])
         \<lparr>errors := [''Existed filename suddenly dissappeared!'', ''Unexpected error occurred! Abort...'']\<rparr>) =
     renames (mk_world [(''d/a.jpg'', 11::nat), (''d/001.jpg'', 22)] [''d/tmp.jpg''])"
proof -
  have dst: "dst_filename ''d'' 3 1 ''d/a.jpg'' = ''d/001.jpg''"
    and ext: "os_path_splitext ''d/a.jpg'' = (''d/a'', ''.jpg'')"
    by code_simp+
  have run: "rename_one ''d'' 3 1 0 ([''d/a.jpg''], mk_world [(''d/a.jpg'', 11::nat), (''d/001.jpg'', 22)] [''d/tmp.jpg'']) =
     Aborted ([''d/a.jpg''],
       (mk_world [(''d/a.jpg'', 11), (''d/001.jpg'', 22)] [])
         \<lparr>errors := [''Existed filename suddenly dissappeared!'', ''Unexpected error occurred! Abort...'']\<rparr>)"
    by (simp add: rename_one_def dst ext mk_world_def os_path_exists_def Let_def)
  from abort_leaves_directory[OF run] run show ?thesis by simp
qed

text \<open>
  C9. With a positive step the targets computed for two different positions differ,
  whatever the two file names are (so also when a name in the list has been replaced by
  a temporary one); in particular the targets of a batch are pairwise distinct. The
  digit width is the same for all of them.
\<close>

theorem targets_pairwise_distinct:
  assumes "0 < s"
  shows "(p \<noteq> q \<longrightarrow> dst_filename current_dir d (start + int p * s) f \<noteq>
                        dst_filename current_dir d (start + int q * s) g) \<and>
         distinct (targets current_dir d start s filenames)"
proof -
  have ne: "\<And>p q f g. p \<noteq> q \<Longrightarrow> dst_filename current_dir d (start + int p * s) f \<noteq>
                        dst_filename current_dir d (start + int q * s) g"
  proof
    fix p q :: nat and f g
    assume "p \<noteq> q" and "dst_filename current_dir d (start + int p * s) f =
                        dst_filename current_dir d (start + int q * s) g"
    from dst_filename_inj[OF this(2)] assms have "int p = int q" by simp
    with \<open>p \<noteq> q\<close> show False by simp
  qed
  have "distinct (targets current_dir d start s filenames)"
    unfolding distinct_conv_nth
  proof (intro allI impI)
    fix a b
    assume "a < length (targets current_dir d start s filenames)"
      "b < length (targets current_dir d start s filenames)" "a \<noteq> b"
    then show "targets current_dir d start s filenames ! a \<noteq> targets current_dir d start s filenames ! b"
      using ne[of a b] by (simp add: targets_def enumerate_with_step_nth)
  qed
  with ne show ?thesis by blast
qed

theorem targets_pairwise_distinct_witness:
  "(0::int) < 1 \<and> (0::nat) \<noteq> 1 \<and>
   dst_filename ''d'' 3 (1 + int 0 * 1) ''d/a.jpg'' \<noteq> dst_filename ''d'' 3 (1 + int 1 * 1) ''d/b.jpg'' \<and>
   distinct (targets ''d'' 3 1 1 [''d/a.jpg'', ''d/b.jpg''])"
  using targets_pairwise_distinct[of 1 0 1 "''d''" 3 1 "''d/a.jpg''" "''d/b.jpg''" "[''d/a.jpg'', ''d/b.jpg'']"]
  by simp

text \<open>
  C4, as stated, fails: the generator only avoids names that exist when it is called, so
  it may draw a name that is a later target and that an earlier entry of the list still
  records. In the run below the batch completes, the file first named
  \<^verbatim>\<open>d/004.jpg\<close> ends at the temporary name \<^verbatim>\<open>d/T.jpg\<close> and stays there.
\<close>

theorem temporary_file_remains:
  "is_done (rename_batch ''d'' 3 2 1 stale_batch stale_world) \<and>
   fst (outcome_state (rename_batch ''d'' 3 2 1 stale_batch stale_world)) =
     [''d/001.jpg'', ''d/T.jpg'', ''d/2a.jpg'', ''d/3.jpg'', ''d/005.jpg''] \<and>
   renames (snd (outcome_state (rename_batch ''d'' 3 2 1 stale_batch stale_world))) =
     [(''d/002.jpg'', ''d/005.jpg''), (''d/001.jpg'', ''d/002.jpg''),
      (''d/005.jpg'', ''d/003.jpg''),
      (''d/004.jpg'', ''d/005.jpg''), (''d/2a.jpg'', ''d/004.jpg''),
      (''d/005.jpg'', ''d/T.jpg''), (''d/3.jpg'', ''d/005.jpg''),
      (''d/005.jpg'', ''d/006.jpg'')] \<and>
   os_path_exists (disk (snd (outcome_state (rename_batch ''d'' 3 2 1 stale_batch stale_world)))) ''d/T.jpg'' \<and>
   \<not> os_path_exists (disk stale_world) ''d/T.jpg'' \<and>
   disk stale_world ''d/004.jpg'' = Some 55 \<and>
   disk (snd (outcome_state (rename_batch ''d'' 3 2 1 stale_batch stale_world))) ''d/T.jpg'' = Some 55 \<and>
   disk (snd (outcome_state (rename_batch ''d'' 3 2 1 stale_batch stale_world))) ''d/005.jpg'' = None"
  by (simp add: rename_batch_def stale_batch_def stale_world_def mk_world_def stale_targets
      rename_one_def Let_def os_path_exists_def sys_rename_def os_rename_def)

text \<open>
  C4, amended. If no name the generator may draw is the target of a position of the
  batch (and, as for any listing, the list has no repeated path and every listed file
  exists; the step is positive), then after a batch that completes no temporary name
  remains: the paths that exist are the targets and the paths outside the batch that
  existed before, each target holds the content of the file of its position, and no
  entry of the final list that was not in the initial one exists on disk.
\<close>

theorem no_temporary_remains:
  assumes "distinct fns0"
    and "\<forall>f\<in>set fns0. os_path_exists (disk w0) f"
    and "0 < s"
    and "\<forall>t\<in>set (draws w0). \<forall>p<length fns0. \<forall>f\<in>set (fns0 @ draws w0).
           t \<noteq> dst_filename current_dir d (start + int p * s) f"
    and run: "rename_batch current_dir d start s fns0 w0 = Done (fns', w')"
  shows "(\<forall>t\<in>set fns'. t \<notin> set fns0 \<longrightarrow> \<not> os_path_exists (disk w') t) \<and>
         (\<forall>x. os_path_exists (disk w') x \<longleftrightarrow>
               x \<in> set (targets current_dir d start s fns') \<or>
               (os_path_exists (disk w0) x \<and> x \<notin> set fns0)) \<and>
         (\<forall>q<length fns0. disk w' (targets current_dir d start s fns' ! q) = disk w0 (fns0 ! q))"
proof -
  from assms(1-4) have ok: "batch_ok current_dir d start s fns0 w0"
    unfolding batch_ok_def by blast
  note fin = batch_inv_final[OF ok batch_inv_run[OF ok run]]
  have ex0: "\<And>q. q < length fns0 \<Longrightarrow> disk w0 (fns0 ! q) \<noteq> None"
    using assms(2) by (simp add: os_path_exists_def)
  have lt: "length (targets current_dir d start s fns') = length fns0"
    using fin(1) by (simp add: targets_def)
  have "\<forall>x. os_path_exists (disk w') x \<longleftrightarrow>
               x \<in> set (targets current_dir d start s fns') \<or>
               (os_path_exists (disk w0) x \<and> x \<notin> set fns0)"
  proof
    fix x
    show "os_path_exists (disk w') x \<longleftrightarrow>
               x \<in> set (targets current_dir d start s fns') \<or>
               (os_path_exists (disk w0) x \<and> x \<notin> set fns0)"
    proof (cases "x \<in> set (targets current_dir d start s fns')")
      case True
      then obtain q where q: "q < length fns0" "x = targets current_dir d start s fns' ! q"
        using lt by (auto simp add: in_set_conv_nth)
      with fin(2)[OF q(1)] ex0[OF q(1)] True show ?thesis by (simp add: os_path_exists_def)
    next
      case False
      with fin(3)[OF False] show ?thesis by (simp add: os_path_exists_def)
    qed
  qed
  with fin(2) fin(4) show ?thesis by (simp add: os_path_exists_def)
qed

theorem no_temporary_remains_witness:
  "is_done (rename_batch ''d'' 3 2 1 shift_batch shift_world) \<and>
   fst (outcome_state (rename_batch ''d'' 3 2 1 shift_batch shift_world)) = [''d/001.jpg'', ''d/tmp.jpg''] \<and>
   \<not> os_path_exists (disk (snd (outcome_state (rename_batch ''d'' 3 2 1 shift_batch shift_world)))) ''d/tmp.jpg'' \<and>
   targets ''d'' 3 2 1 [''d/001.jpg'', ''d/tmp.jpg''] = [''d/002.jpg'', ''d/003.jpg''] \<and>
   disk (snd (outcome_state (rename_batch ''d'' 3 2 1 shift_batch shift_world))) ''d/002.jpg'' = Some 11 \<and>
   disk (snd (outcome_state (rename_batch ''d'' 3 2 1 shift_batch shift_world))) ''d/003.jpg'' = Some 22"
proof -
  let ?r = "rename_batch ''d'' 3 2 1 shift_batch shift_world"
  have dn: "is_done ?r"
    and fns: "fst (outcome_state ?r) = [''d/001.jpg'', ''d/tmp.jpg'']"
    by (simp_all add: rename_batch_def shift_batch_def shift_world_def mk_world_def shift_facts
        rename_one_def Let_def os_path_exists_def sys_rename_def os_rename_def)
  from dn obtain st where st: "?r = Done st" by (rule is_done_obtain)
  then have run: "?r = Done (fst st, snd st)" by simp
  have h1: "distinct shift_batch"
    by (simp add: shift_batch_def)
  have h2: "\<forall>f\<in>set shift_batch. os_path_exists (disk shift_world) f"
    by (simp add: shift_batch_def shift_world_def mk_world_def os_path_exists_def)
  have h3: "(0::int) < 1" by simp
  have h4: "\<forall>t\<in>set (draws shift_world). \<forall>p<length shift_batch. \<forall>f\<in>set (shift_batch @ draws shift_world).
           t \<noteq> dst_filename ''d'' 3 (2 + int p * 1) f"
  proof (intro ballI allI impI)
    fix t p f
    assume t: "t \<in> set (draws shift_world)" and p: "p < length shift_batch"
      and f: "f \<in> set (shift_batch @ draws shift_world)"
    from p have "p = 0 \<or> p = 1" by (auto simp add: shift_batch_def)
    with t f show "t \<noteq> dst_filename ''d'' 3 (2 + int p * 1) f"
      by (auto simp add: shift_batch_def shift_world_def mk_world_def shift_facts)
  qed
  have tg: "targets ''d'' 3 2 1 [''d/001.jpg'', ''d/tmp.jpg''] = [''d/002.jpg'', ''d/003.jpg'']"
    by (simp add: targets_def shift_facts)
  note r = no_temporary_remains[OF h1 h2 h3 h4 run]
  from st fns have f': "fst st = [''d/001.jpg'', ''d/tmp.jpg'']" by simp
  note r1 = r[THEN conjunct1, rule_format]
  note r3 = r[THEN conjunct2, THEN conjunct2, rule_format]
  have a: "\<not> os_path_exists (disk (snd st)) ''d/tmp.jpg''"
    by (rule r1) (simp_all add: f' shift_batch_def)
  have "0 < length shift_batch" "1 < length shift_batch" by (simp_all add: shift_batch_def)
  from r3[OF this(1)] r3[OF this(2)]
  have b: "disk (snd st) ''d/002.jpg'' = Some 11" "disk (snd st) ''d/003.jpg'' = Some 22"
    by (simp_all add: f' tg shift_batch_def shift_world_def mk_world_def)
  from dn fns a b tg st show ?thesis by simp
qed




end
